theory Spec2Isabelle
  imports Main "HOL-Library.Char_ord"
begin

section \<open>Data model (parse\_state.go, query\_token.go, parameter and parsed-SQL declarations)\<close>

text \<open>
  A Go \<open>string\<close> is a sequence of bytes: it is modelled as a \<open>char list\<close> (HOL characters
  are 8-bit). Offsets, lengths and parameter indices are Go \<open>int\<close>s that only ever hold
  values between 0 and the length of the source text, so they are natural numbers here.
\<close>

type_synonym Selector = string
type_synonym SQLQuery = string

record QueryToken =
  Name :: Selector
  Index :: nat
  Start :: nat
  End :: nat
  Raw :: string

type_synonym QueryTokens = "QueryToken list"

record Parameter =
  PName :: Selector
  PIndex :: nat

record editState =
  e_start :: nat
  e_end :: nat
  e_repl :: string

type_synonym FormatParamFunc = "nat \<Rightarrow> string"

record parseState =
  s_src :: string
  s_n :: nat
  s_i :: nat
  s_edits :: "editState list"
  s_order :: "string list"
  s_indexOf :: "string \<rightharpoonup> nat"
  s_tokens :: QueryTokens

record ParsedSQL =
  SQL :: SQLQuery
  parameters :: "Parameter list"
  occurrences :: "QueryToken list"

text \<open>
  The two errors \<open>ParseSQL\<close> can return. \<open>ErrInvalidPlaceholderName\<close> is wrapped by
  \<open>NewErr\<close> together with the key/value pairs \<open>name\<close> and \<open>offset\<close>; the constructor
  carries both.
\<close>

datatype error =
  ErrFormatParamFuncRequired
| ErrInvalidPlaceholderName string nat

definition newParseState :: "SQLQuery \<Rightarrow> parseState" where
  "newParseState sqlText =
     \<lparr>s_src = sqlText, s_n = length sqlText, s_i = 0, s_edits = [], s_order = [],
      s_indexOf = Map.empty, s_tokens = []\<rparr>"

definition NewParameter :: "Selector \<Rightarrow> nat \<Rightarrow> Parameter" where
  "NewParameter name index = \<lparr>PName = name, PIndex = index\<rparr>"

definition NewParsedSQLWithOccurrences ::
    "SQLQuery \<Rightarrow> Parameter list \<Rightarrow> QueryToken list \<Rightarrow> ParsedSQL" where
  "NewParsedSQLWithOccurrences sql ps occs =
     \<lparr>SQL = sql, parameters = ps, occurrences = occs\<rparr>"

text \<open>The zero value of \<open>ParsedSQL\<close>, which \<open>ParseSQL\<close> returns next to an error.\<close>

definition zeroParsedSQL :: ParsedSQL where
  "zeroParsedSQL = \<lparr>SQL = [], parameters = [], occurrences = []\<rparr>"

text \<open>The zero value of \<open>QueryToken\<close>, which fills a slice made by \<open>make\<close>.\<close>

definition zeroQueryToken :: QueryToken where
  "zeroQueryToken = \<lparr>Name = [], Index = 0, Start = 0, End = 0, Raw = []\<rparr>"

text \<open>\<open>s[a:b]\<close> for \<open>a \<le> b \<le> len(s)\<close>, the only way the scanner slices.\<close>

definition slice :: "string \<Rightarrow> nat \<Rightarrow> nat \<Rightarrow> string" where
  "slice s a b = take (b - a) (drop a s)"

section \<open>Character classes\<close>

abbreviation squote :: char where "squote \<equiv> CHR 0x27"
abbreviation dquote :: char where "dquote \<equiv> CHR 0x22"
abbreviation backtick :: char where "backtick \<equiv> CHR 0x60"
abbreviation newline :: char where "newline \<equiv> CHR 0x0A"

definition isValidIdentifierStart :: "char \<Rightarrow> bool" where
  "isValidIdentifierStart b \<longleftrightarrow>
     (CHR ''a'' \<le> b \<and> b \<le> CHR ''z'') \<or> (CHR ''A'' \<le> b \<and> b \<le> CHR ''Z'') \<or> b = CHR ''_''"

definition isValidIdentifierChar :: "char \<Rightarrow> bool" where
  "isValidIdentifierChar b \<longleftrightarrow>
     isValidIdentifierStart b \<or> (CHR ''0'' \<le> b \<and> b \<le> CHR ''9'') \<or> b = CHR ''.'' \<or>
     b = CHR ''['' \<or> b = CHR '']''"

text \<open>
  Go's \<open>unicode.IsLetter\<close>, \<open>unicode.IsDigit\<close> and \<open>unicode.IsSpace\<close> belong to the
  standard library. On the Latin-1 range (all that a \<open>rune(byte)\<close> conversion can reach)
  they are the fixed tables below. Beyond U+00FF the letter and digit tables are a
  parameter of the model.
\<close>

record unicode_tables =
  isLetterHigh :: "nat \<Rightarrow> bool"
  isDigitHigh :: "nat \<Rightarrow> bool"

definition latin1_letter :: "nat \<Rightarrow> bool" where
  "latin1_letter r \<longleftrightarrow>
     (65 \<le> r \<and> r \<le> 90) \<or> (97 \<le> r \<and> r \<le> 122) \<or> r = 170 \<or> r = 181 \<or> r = 186 \<or>
     (192 \<le> r \<and> r \<le> 214) \<or> (216 \<le> r \<and> r \<le> 246) \<or> (248 \<le> r \<and> r \<le> 255)"

definition unicode_IsLetter :: "unicode_tables \<Rightarrow> nat \<Rightarrow> bool" where
  "unicode_IsLetter U r = (if r \<le> 255 then latin1_letter r else isLetterHigh U r)"

definition unicode_IsDigit :: "unicode_tables \<Rightarrow> nat \<Rightarrow> bool" where
  "unicode_IsDigit U r = (if r \<le> 255 then 48 \<le> r \<and> r \<le> 57 else isDigitHigh U r)"

text \<open>\<open>unicode.IsLetter(rune(c))\<close> and friends for a byte \<open>c\<close>.\<close>

definition byte_IsLetter :: "char \<Rightarrow> bool" where
  "byte_IsLetter c = latin1_letter (of_char c)"

definition byte_IsDigit :: "char \<Rightarrow> bool" where
  "byte_IsDigit c \<longleftrightarrow> CHR ''0'' \<le> c \<and> c \<le> CHR ''9''"

definition byte_IsSpace :: "char \<Rightarrow> bool" where
  "byte_IsSpace c \<longleftrightarrow>
     c = CHR 0x09 \<or> c = CHR 0x0A \<or> c = CHR 0x0B \<or> c = CHR 0x0C \<or> c = CHR 0x0D \<or>
     c = CHR '' '' \<or> c = CHR 0x85 \<or> c = CHR 0xA0"

section \<open>The span skippers (parse\_state.go)\<close>

definition peek :: "parseState \<Rightarrow> nat \<Rightarrow> char" where
  "peek s k = (if s_i s + k < s_n s then s_src s ! (s_i s + k) else CHR 0x00)"

text \<open>
  Each skipper is a method that only moves the cursor \<open>s.i\<close>. Its loop is a function of
  the source text, its length and the cursor, returning the new cursor.
\<close>

function singleQuoted_loop :: "string \<Rightarrow> nat \<Rightarrow> nat \<Rightarrow> nat" where
  "singleQuoted_loop src n i =
     (if i < n then
        (let c = src ! i; i1 = i + 1 in
         if c = squote then
           (if i1 \<le> n then i1
            else if src ! i1 \<noteq> squote then i1
            else singleQuoted_loop src n (i1 + 1))
         else singleQuoted_loop src n i1)
      else i)"
  by pat_completeness auto
termination
  by (relation "measure (\<lambda>(src, n, i). n - i)") auto

declare singleQuoted_loop.simps [simp del]

definition consumeSingleQuoted :: "parseState \<Rightarrow> parseState" where
  "consumeSingleQuoted s = s\<lparr>s_i := singleQuoted_loop (s_src s) (s_n s) (s_i s + 1)\<rparr>"

text \<open>
  The double-quote, backtick and bracket skippers run the same loop with a different
  closing byte.
\<close>

function closing_loop :: "char \<Rightarrow> string \<Rightarrow> nat \<Rightarrow> nat \<Rightarrow> nat" where
  "closing_loop q src n i =
     (if i < n then
        (let c = src ! i; i1 = i + 1 in
         if c = q then i1 else closing_loop q src n i1)
      else i)"
  by pat_completeness auto
termination
  by (relation "measure (\<lambda>(q, src, n, i). n - i)") auto

declare closing_loop.simps [simp del]

definition consumeDoubleQuoted :: "parseState \<Rightarrow> parseState" where
  "consumeDoubleQuoted s = s\<lparr>s_i := closing_loop dquote (s_src s) (s_n s) (s_i s + 1)\<rparr>"

definition consumeBacktick :: "parseState \<Rightarrow> parseState" where
  "consumeBacktick s = s\<lparr>s_i := closing_loop backtick (s_src s) (s_n s) (s_i s + 1)\<rparr>"

definition consumeBracketIdent :: "parseState \<Rightarrow> parseState" where
  "consumeBracketIdent s = s\<lparr>s_i := closing_loop (CHR '']'') (s_src s) (s_n s) (s_i s + 1)\<rparr>"

function line_loop :: "string \<Rightarrow> nat \<Rightarrow> nat \<Rightarrow> nat" where
  "line_loop src n i =
     (if i < n \<and> src ! i \<noteq> newline then line_loop src n (i + 1) else i)"
  by pat_completeness auto
termination
  by (relation "measure (\<lambda>(src, n, i). n - i)") auto

declare line_loop.simps [simp del]

definition consumeDashDash :: "parseState \<Rightarrow> parseState" where
  "consumeDashDash s = s\<lparr>s_i := line_loop (s_src s) (s_n s) (s_i s)\<rparr>"

definition consumeHashComment :: "parseState \<Rightarrow> parseState" where
  "consumeHashComment s = s\<lparr>s_i := line_loop (s_src s) (s_n s) (s_i s + 1)\<rparr>"

text \<open>
  \<open>consumeBlockComment\<close> has two loops over \<open>s.i < s.n-1\<close> (written \<open>i + 1 < n\<close> here, the
  same on Go integers). A loop returns \<open>(True, i)\<close> when it jumped to \<open>end\<close> at a closing
  \<open>*/\<close> and \<open>(False, i)\<close> when it fell through.
\<close>

function blockComment_loop1 :: "string \<Rightarrow> nat \<Rightarrow> nat \<Rightarrow> bool \<times> nat" where
  "blockComment_loop1 src n i =
     (if i + 1 < n then
        (if src ! i \<noteq> CHR ''*'' then blockComment_loop1 src n (i + 1)
         else if src ! (i + 1) \<noteq> CHR ''/'' then blockComment_loop1 src n (i + 1)
         else (True, i + 2))
      else (False, i))"
  by pat_completeness auto
termination
  by (relation "measure (\<lambda>(src, n, i). n - i)") auto

declare blockComment_loop1.simps [simp del]

function blockComment_loop2 :: "string \<Rightarrow> nat \<Rightarrow> nat \<Rightarrow> bool \<times> nat" where
  "blockComment_loop2 src n i =
     (if i + 1 < n then
        (if src ! i = CHR ''*'' \<and> src ! (i + 1) = CHR ''/'' then (True, i + 2)
         else blockComment_loop2 src n (i + 1))
      else (False, i))"
  by pat_completeness auto
termination
  by (relation "measure (\<lambda>(src, n, i). n - i)") auto

declare blockComment_loop2.simps [simp del]

definition consumeBlockComment :: "parseState \<Rightarrow> parseState" where
  "consumeBlockComment s =
     (case blockComment_loop1 (s_src s) (s_n s) (s_i s + 2) of
        (True, i1) \<Rightarrow> s\<lparr>s_i := i1\<rparr>
      | (False, i1) \<Rightarrow>
          (case blockComment_loop2 (s_src s) (s_n s) i1 of
             (True, i2) \<Rightarrow> s\<lparr>s_i := i2\<rparr>
           | (False, i2) \<Rightarrow> s\<lparr>s_i := s_n s\<rparr>))"

text \<open>
  \<open>strings.Index(s, sub)\<close> of the standard library: the offset of the first occurrence of
  \<open>sub\<close> in \<open>s\<close>, \<open>None\<close> for Go's \<open>-1\<close>.
\<close>

fun strings_Index :: "string \<Rightarrow> string \<Rightarrow> nat option" where
  "strings_Index [] sub = (if sub = [] then Some 0 else None)"
| "strings_Index (c # cs) sub =
     (if take (length sub) (c # cs) = sub then Some 0
      else map_option Suc (strings_Index cs sub))"

text \<open>
  The tag loop of \<open>consumeDollarQuoted\<close>: \<open>None\<close> when a byte that cannot be part of a tag
  sends the cursor back to \<open>start + 1\<close>, otherwise the cursor where the loop stopped
  (just past the closing \<open>$\<close> of the tag, or at the end of the text).
\<close>

function dollarTag_loop :: "string \<Rightarrow> nat \<Rightarrow> nat \<Rightarrow> nat option" where
  "dollarTag_loop src n i =
     (if i < n then
        (let c = src ! i in
         if c = CHR ''$'' then Some (i + 1)
         else if c \<noteq> CHR ''_'' \<and> \<not> byte_IsLetter c \<and> \<not> byte_IsDigit c then None
         else dollarTag_loop src n (i + 1))
      else Some i)"
  by pat_completeness auto
termination
  by (relation "measure (\<lambda>(src, n, i). n - i)") auto

declare dollarTag_loop.simps [simp del]

definition consumeDollarQuoted :: "parseState \<Rightarrow> parseState" where
  "consumeDollarQuoted s =
     (let start = s_i s in
      case dollarTag_loop (s_src s) (s_n s) (s_i s + 1) of
        None \<Rightarrow> s\<lparr>s_i := start + 1\<rparr>
      | Some i1 \<Rightarrow>
          if i1 > s_n s then s\<lparr>s_i := s_n s\<rparr>
          else
            (let tag = slice (s_src s) start i1 in
             case strings_Index (drop i1 (s_src s)) tag of
               None \<Rightarrow> s\<lparr>s_i := s_n s\<rparr>
             | Some idx \<Rightarrow> s\<lparr>s_i := i1 + (idx + length tag)\<rparr>))"

function space_loop :: "string \<Rightarrow> nat \<Rightarrow> nat \<Rightarrow> nat" where
  "space_loop src n i =
     (if i < n \<and> byte_IsSpace (src ! i) then space_loop src n (i + 1) else i)"
  by pat_completeness auto
termination
  by (relation "measure (\<lambda>(src, n, i). n - i)") auto

declare space_loop.simps [simp del]

definition closeDelimOf :: "char \<Rightarrow> char" where
  "closeDelimOf delim =
     (if delim = CHR ''<'' then CHR ''>''
      else if delim = CHR ''('' then CHR '')''
      else if delim = CHR ''['' then CHR '']''
      else if delim = CHR ''{'' then CHR ''}''
      else delim)"

text \<open>
  The closing loop of \<open>consumeOracleQ\<close>: \<open>Some i\<close> when it found \<open>closeDelim\<close> followed by a
  quote and jumped to \<open>end\<close> with the cursor past both, \<open>None\<close> when it left the loop (by
  \<open>break\<close> or at the end of the text), after which the cursor is set to \<open>s.n\<close>.
\<close>

function oracleClose_loop :: "char \<Rightarrow> string \<Rightarrow> nat \<Rightarrow> nat \<Rightarrow> nat option" where
  "oracleClose_loop closeDelim src n i =
     (if i < n then
        (if src ! i = closeDelim then
           (if i + 1 \<ge> n then None
            else if src ! (i + 1) \<noteq> squote then oracleClose_loop closeDelim src n (i + 1)
            else Some (i + 2))
         else oracleClose_loop closeDelim src n (i + 1))
      else None)"
  by pat_completeness auto
termination
  by (relation "measure (\<lambda>(closeDelim, src, n, i). n - i)") auto

declare oracleClose_loop.simps [simp del]

definition consumeOracleQ :: "parseState \<Rightarrow> parseState" where
  "consumeOracleQ s =
     (let start = s_i s in
      if s_i s + 1 \<ge> s_n s then s\<lparr>s_i := start + 1\<rparr>
      else if s_src s ! (s_i s + 1) \<noteq> squote \<and> s_src s ! (s_i s + 1) \<noteq> CHR '' '' then
        s\<lparr>s_i := start + 1\<rparr>
      else
        (let i1 = space_loop (s_src s) (s_n s) (s_i s + 1) in
         if i1 \<ge> s_n s \<or> s_src s ! i1 \<noteq> squote then s\<lparr>s_i := start + 1\<rparr>
         else
           (let i2 = i1 + 1 in
            if i2 \<ge> s_n s then s\<lparr>s_i := s_n s\<rparr>
            else
              (let delim = s_src s ! i2; closeDelim = closeDelimOf delim; i3 = i2 + 1 in
               case oracleClose_loop closeDelim (s_src s) (s_n s) i3 of
                 Some i4 \<Rightarrow> s\<lparr>s_i := i4\<rparr>
               | None \<Rightarrow> s\<lparr>s_i := s_n s\<rparr>))))"

section \<open>The placeholder recognizer and validator\<close>

text \<open>
  \<open>utf8At\<close> decodes the rune at a byte offset. For a byte below \<open>0x80\<close> it is the
  byte, of width 1. Otherwise the rune is the first one of \<open>[]rune(s[i:])\<close>, that is
  Go's UTF-8 decoding, where an ill-formed sequence gives \<open>U+FFFD\<close>; the width is the
  length of that rune encoded again.
\<close>

definition is_cont :: "nat \<Rightarrow> bool" where
  "is_cont b \<longleftrightarrow> 128 \<le> b \<and> b \<le> 191"

definition decodeRune :: "nat list \<Rightarrow> nat" where
  "decodeRune bs =
     (let b0 = bs ! 0; len = length bs in
      if 194 \<le> b0 \<and> b0 \<le> 223 \<and> 2 \<le> len \<and> is_cont (bs ! 1) then
        (b0 - 192) * 64 + (bs ! 1 - 128)
      else if 224 \<le> b0 \<and> b0 \<le> 239 \<and> 3 \<le> len \<and>
              (if b0 = 224 then 160 else 128) \<le> bs ! 1 \<and>
              bs ! 1 \<le> (if b0 = 237 then 159 else 191) \<and> is_cont (bs ! 2) then
        (b0 - 224) * 4096 + (bs ! 1 - 128) * 64 + (bs ! 2 - 128)
      else if 240 \<le> b0 \<and> b0 \<le> 244 \<and> 4 \<le> len \<and>
              (if b0 = 240 then 144 else 128) \<le> bs ! 1 \<and>
              bs ! 1 \<le> (if b0 = 244 then 143 else 191) \<and>
              is_cont (bs ! 2) \<and> is_cont (bs ! 3) then
        (b0 - 240) * 262144 + (bs ! 1 - 128) * 4096 + (bs ! 2 - 128) * 64 + (bs ! 3 - 128)
      else 65533)"

definition runeLen :: "nat \<Rightarrow> nat" where
  "runeLen r =
     (if r < 128 then 1 else if r < 2048 then 2
      else if (55296 \<le> r \<and> r \<le> 57343) \<or> 1114111 < r then 3
      else if r < 65536 then 3 else 4)"

definition utf8At :: "string \<Rightarrow> nat \<Rightarrow> nat \<times> nat" where
  "utf8At s i =
     (let b = s ! i in
      if (of_char b :: nat) < 128 then (of_char b, 1)
      else (let r = decodeRune (map of_char (drop i s)) in (r, runeLen r)))"

definition isLetterOrUnderscore :: "unicode_tables \<Rightarrow> nat \<Rightarrow> bool" where
  "isLetterOrUnderscore U r = (if r = 95 then True else if unicode_IsLetter U r then True else False)"

definition isLetterDigitOrUnderscore :: "unicode_tables \<Rightarrow> nat \<Rightarrow> bool" where
  "isLetterDigitOrUnderscore U r =
     (if r = 95 then True else if unicode_IsLetter U r then True
      else if unicode_IsDigit U r then True else False)"

lemma utf8At_width: "0 < snd (utf8At s i)"
  by (simp add: utf8At_def runeLen_def Let_def)

function readIdent_loop :: "unicode_tables \<Rightarrow> string \<Rightarrow> nat \<Rightarrow> nat" where
  "readIdent_loop U s i =
     (if i < length s then
        (case utf8At s i of (r, w) \<Rightarrow>
           if isLetterDigitOrUnderscore U r then readIdent_loop U s (i + w) else i)
      else i)"
  by pat_completeness auto
termination
proof (relation "measure (\<lambda>(U, s, i). length s - i)")
  show "wf (measure (\<lambda>(U, s, i). length s - i))" by simp
next
  fix U :: unicode_tables and s :: string and i x y :: nat
  assume "i < length s" and "(x, y) = utf8At s i"
  moreover have "0 < snd (utf8At s i)" by (rule utf8At_width)
  ultimately show "((U, s, i + y), U, s, i) \<in> measure (\<lambda>(U, s, i). length s - i)"
    by (metis (no_types, lifting) add.commute case_prod_conv diff_less_mono2 in_measure
        less_add_same_cancel2 snd_conv)
qed

declare readIdent_loop.simps [simp del]

text \<open>\<open>readIdent(s, &i)\<close> returns \<open>ok\<close> and the new value of \<open>*i\<close>.\<close>

definition readIdent :: "unicode_tables \<Rightarrow> string \<Rightarrow> nat \<Rightarrow> bool \<times> nat" where
  "readIdent U s i =
     (if i \<ge> length s then (False, i)
      else
        (case utf8At s i of (r, w) \<Rightarrow>
           if \<not> isLetterOrUnderscore U r then (False, i)
           else (True, readIdent_loop U s (i + w))))"

function readDigits_loop :: "string \<Rightarrow> nat \<Rightarrow> nat" where
  "readDigits_loop s i =
     (if i < length s then
        (if s ! i < CHR ''0'' \<or> s ! i > CHR ''9'' then i else readDigits_loop s (i + 1))
      else i)"
  by pat_completeness auto
termination
  by (relation "measure (\<lambda>(s, i). length s - i)") auto

declare readDigits_loop.simps [simp del]

definition readDigits :: "string \<Rightarrow> nat \<Rightarrow> bool \<times> nat" where
  "readDigits s i =
     (let start = i in
      if i \<ge> length s then (False, i)
      else (let i1 = readDigits_loop s i in if i1 = start then (False, i1) else (True, i1)))"

lemma readIdent_loop_ge: "i \<le> readIdent_loop U s i"
proof (induction U s i rule: readIdent_loop.induct)
  case (1 U s i)
  show ?case
  proof (cases "i < length s")
    case True
    obtain r w where rw: "utf8At s i = (r, w)" by (cases "utf8At s i")
    show ?thesis
    proof (cases "isLetterDigitOrUnderscore U r")
      case True
      from "1.IH" [OF \<open>i < length s\<close> rw [symmetric] True]
      have "i + w \<le> readIdent_loop U s (i + w)" .
      then show ?thesis
        using \<open>i < length s\<close> rw True by (subst readIdent_loop.simps) simp
    next
      case False
      then show ?thesis
        using \<open>i < length s\<close> rw by (subst readIdent_loop.simps) simp
    qed
  next
    case False
    then show ?thesis by (subst readIdent_loop.simps) simp
  qed
qed

lemma readIdent_ok_gt: "readIdent U s i = (True, i1) \<Longrightarrow> i < i1"
proof -
  assume a: "readIdent U s i = (True, i1)"
  obtain r w where rw: "utf8At s i = (r, w)" by (cases "utf8At s i")
  have w: "0 < w" using utf8At_width [of s i] rw by simp
  from a rw have "i1 = readIdent_loop U s (i + w)"
    by (auto simp: readIdent_def split: if_splits)
  moreover have "i + w \<le> readIdent_loop U s (i + w)" by (rule readIdent_loop_ge)
  ultimately show ?thesis using w by linarith
qed

lemma readDigits_loop_ge: "i \<le> readDigits_loop s i"
proof (induction s i rule: readDigits_loop.induct)
  case (1 s i)
  then show ?case
    by (subst readDigits_loop.simps) (auto simp: le_Suc_eq dest: Suc_leD)
qed

lemma readDigits_ok_gt: "readDigits s i = (True, i1) \<Longrightarrow> i < i1"
  using readDigits_loop_ge [of i s]
  by (auto simp: readDigits_def Let_def split: if_splits)

function isValidName_loop :: "unicode_tables \<Rightarrow> string \<Rightarrow> nat \<Rightarrow> bool" where
  "isValidName_loop U s i =
     (if i < length s then
        (if s ! i = CHR ''.'' then
           (case readIdent U s (i + 1) of (ok, i1) \<Rightarrow>
              if \<not> ok then False else isValidName_loop U s i1)
         else if s ! i = CHR ''['' then
           (case readDigits s (i + 1) of (ok, i1) \<Rightarrow>
              if \<not> ok then False
              else if i1 \<ge> length s \<or> s ! i1 \<noteq> CHR '']'' then False
              else isValidName_loop U s (i1 + 1))
         else False)
      else True)"
  by pat_completeness auto
termination
proof (relation "measure (\<lambda>(U, s, i). length s - i)")
  show "wf (measure (\<lambda>(U, s, i). length s - i))" by simp
next
  fix U :: unicode_tables and s :: string and i :: nat and x :: bool and y :: nat
  assume "i < length s" and "(x, y) = readIdent U s (i + 1)" and "\<not> \<not> x"
  then have "i + 1 < y" using readIdent_ok_gt [of U s "i + 1" y] by simp
  then show "((U, s, y), U, s, i) \<in> measure (\<lambda>(U, s, i). length s - i)"
    using \<open>i < length s\<close> by simp
next
  fix U :: unicode_tables and s :: string and i :: nat and x :: bool and y :: nat
  assume "i < length s" and "(x, y) = readDigits s (i + 1)" and "\<not> \<not> x"
  then have "i + 1 < y" using readDigits_ok_gt [of s "i + 1" y] by simp
  then show "((U, s, y + 1), U, s, i) \<in> measure (\<lambda>(U, s, i). length s - i)"
    using \<open>i < length s\<close> by simp
qed

declare isValidName_loop.simps [simp del]

definition isValidName :: "unicode_tables \<Rightarrow> string \<Rightarrow> bool" where
  "isValidName U s =
     (if s = [] then False
      else
        (case readIdent U s 0 of (ok, i) \<Rightarrow>
           if \<not> ok then False else isValidName_loop U s i))"

text \<open>The registry: \<open>getIndex\<close> returns the index and the updated state.\<close>

definition getIndex :: "parseState \<Rightarrow> string \<Rightarrow> parseState \<times> nat" where
  "getIndex s name =
     (case s_indexOf s name of
        Some idx \<Rightarrow> (s, idx)
      | None \<Rightarrow>
          (let s1 = s\<lparr>s_order := s_order s @ [name]\<rparr>;
               idx = length (s_order s1)
           in (s1\<lparr>s_indexOf := (s_indexOf s1)(name \<mapsto> idx)\<rparr>, idx)))"

function name_loop :: "string \<Rightarrow> nat \<Rightarrow> nat \<Rightarrow> nat" where
  "name_loop src n j =
     (if j < n \<and> isValidIdentifierChar (src ! j) then name_loop src n (j + 1) else j)"
  by pat_completeness auto
termination
  by (relation "measure (\<lambda>(src, n, j). n - j)") auto

declare name_loop.simps [simp del]

text \<open>\<open>consumePlaceholder\<close> returns the state it leaves behind and the error, if any.\<close>

definition consumePlaceholder ::
    "unicode_tables \<Rightarrow> FormatParamFunc \<Rightarrow> parseState \<Rightarrow> parseState \<times> error option" where
  "consumePlaceholder U formatFunc s =
     (let start = s_i s;
          s1 = s\<lparr>s_i := s_i s + 1\<rparr>;
          j = s_i s1
      in
      if j \<ge> s_n s1 \<or> \<not> isValidIdentifierStart (s_src s1 ! j) then (s1, None)
      else
        (let j1 = name_loop (s_src s1) (s_n s1) j;
             rawName = slice (s_src s1) (s_i s1) j1
         in
         if \<not> isValidName U rawName then
           (s1, Some (ErrInvalidPlaceholderName rawName start))
         else
           (case getIndex s1 rawName of (s2, idx) \<Rightarrow>
              (let s3 = s2\<lparr>s_tokens := s_tokens s2 @
                          [\<lparr>Name = rawName, Index = idx, Start = start, End = j1,
                            Raw = slice (s_src s2) start j1\<rparr>]\<rparr>;
                   s4 = s3\<lparr>s_edits := s_edits s3 @
                          [\<lparr>e_start = start, e_end = j1, e_repl = formatFunc idx\<rparr>]\<rparr>
               in (s4\<lparr>s_i := j1\<rparr>, None)))))"

section \<open>The output rewriter\<close>

fun buildSQL_loop :: "string \<Rightarrow> editState list \<Rightarrow> string \<Rightarrow> nat \<Rightarrow> string \<times> nat" where
  "buildSQL_loop src [] b lastEnd = (b, lastEnd)"
| "buildSQL_loop src (e # es) b lastEnd =
     buildSQL_loop src es
       ((if e_start e > lastEnd then b @ slice src lastEnd (e_start e) else b) @ e_repl e)
       (e_end e)"

definition buildSQL :: "parseState \<Rightarrow> SQLQuery" where
  "buildSQL s =
     (case buildSQL_loop (s_src s) (s_edits s) [] 0 of (b, lastEnd) \<Rightarrow>
        if lastEnd < length (s_src s) then b @ drop lastEnd (s_src s) else b)"

fun orderedTokens_loop :: "string list \<Rightarrow> QueryTokens \<Rightarrow> QueryTokens \<Rightarrow> QueryTokens" where
  "orderedTokens_loop order [] ordered = ordered"
| "orderedTokens_loop order (p # ps) ordered =
     orderedTokens_loop order ps
       (if Index p < 1 then ordered
        else if Index p > length order then ordered
        else if order ! (Index p - 1) \<noteq> Name p then ordered
        else ordered[Index p - 1 := p])"

definition orderedTokens :: "parseState \<Rightarrow> QueryTokens" where
  "orderedTokens s =
     orderedTokens_loop (s_order s) (s_tokens s) (replicate (length (s_order s)) zeroQueryToken)"

text \<open>
  \<open>QueryTokens.Parameters\<close> sorts the tokens by \<open>Index\<close> with \<open>sort.Slice\<close> and turns each
  into a \<open>Parameter\<close>. \<open>sort.Slice\<close> is not stable; \<open>sort_key\<close> is. The two agree whenever
  the indices are pairwise different, which is the case at both calls in \<open>ParseSQL\<close>
  (lemma \<open>orderedTokens_indices\<close> below).
\<close>

definition Parameters :: "QueryTokens \<Rightarrow> Parameter list" where
  "Parameters qts = map (\<lambda>sp. NewParameter (Name sp) (Index sp)) (sort_key Index qts)"

section \<open>The scan dispatcher (\<open>ParseSQL\<close>)\<close>

text \<open>
  One iteration of the \<open>for state.i < state.n\<close> loop, entered with \<open>s.i < s.n\<close>: the
  \<open>switch\<close> on the byte under the cursor. A case whose inner \<open>if\<close> fails leaves the
  \<open>switch\<close> and reaches the \<open>state.i++\<close> after it. The result is the state after the
  iteration and the error of \<open>consumePlaceholder\<close>, upon which \<open>ParseSQL\<close> returns.
\<close>

definition advance :: "parseState \<Rightarrow> nat \<Rightarrow> parseState" where
  "advance s k = s\<lparr>s_i := s_i s + k\<rparr>"

definition step ::
    "unicode_tables \<Rightarrow> FormatParamFunc \<Rightarrow> parseState \<Rightarrow> parseState \<times> error option" where
  "step U formatFunc s =
     (let c = s_src s ! s_i s in
      if c = CHR ''-'' then
        (if peek s 1 = CHR ''-'' then (consumeDashDash (advance s 2), None)
         else (advance s 1, None))
      else if c = CHR ''#'' then (consumeHashComment s, None)
      else if c = CHR ''/'' then
        (if peek s 1 = CHR ''*'' then (consumeBlockComment s, None)
         else (advance s 1, None))
      else if c = squote then (consumeSingleQuoted s, None)
      else if c = dquote then (consumeDoubleQuoted s, None)
      else if c = backtick then (consumeBacktick s, None)
      else if c = CHR ''['' then (consumeBracketIdent s, None)
      else if c = CHR ''$'' then (consumeDollarQuoted s, None)
      else if c = CHR ''q'' \<or> c = CHR ''Q'' then (consumeOracleQ s, None)
      else if c = CHR '':'' then
        (if peek s 1 = CHR '':'' then (advance s 2, None)
         else if s_i s + 1 < s_n s \<and> isValidIdentifierStart (s_src s ! (s_i s + 1)) then
           consumePlaceholder U formatFunc s
         else (advance s 1, None))
      else (advance s 1, None))"

subsection \<open>Every loop moves the cursor forward and stays inside the text\<close>

lemma singleQuoted_loop_ge: "i \<le> singleQuoted_loop src n i"
proof (induction src n i rule: singleQuoted_loop.induct)
  case (1 src n i)
  then show ?case
    by (subst singleQuoted_loop.simps) (auto simp: Let_def dest: Suc_leD)
qed

lemma singleQuoted_loop_le: "i \<le> n \<Longrightarrow> singleQuoted_loop src n i \<le> n"
proof (induction src n i rule: singleQuoted_loop.induct)
  case (1 src n i)
  then show ?case
    by (subst singleQuoted_loop.simps) (auto simp: Let_def)
qed

lemma closing_loop_ge: "i \<le> closing_loop q src n i"
proof (induction q src n i rule: closing_loop.induct)
  case (1 q src n i)
  then show ?case
    by (subst closing_loop.simps) (auto simp: Let_def dest: Suc_leD)
qed

lemma closing_loop_le: "i \<le> n \<Longrightarrow> closing_loop q src n i \<le> n"
proof (induction q src n i rule: closing_loop.induct)
  case (1 q src n i)
  then show ?case
    by (subst closing_loop.simps) (auto simp: Let_def)
qed

lemma line_loop_ge: "i \<le> line_loop src n i"
proof (induction src n i rule: line_loop.induct)
  case (1 src n i)
  then show ?case
    by (subst line_loop.simps) (auto dest: Suc_leD)
qed

lemma line_loop_le: "i \<le> n \<Longrightarrow> line_loop src n i \<le> n"
proof (induction src n i rule: line_loop.induct)
  case (1 src n i)
  then show ?case
    by (subst line_loop.simps) auto
qed

lemma blockComment_loop1_ge: "i \<le> snd (blockComment_loop1 src n i)"
proof (induction src n i rule: blockComment_loop1.induct)
  case (1 src n i)
  then show ?case
    by (subst blockComment_loop1.simps) (auto dest: Suc_leD)
qed

lemma blockComment_loop1_le: "i \<le> n \<Longrightarrow> snd (blockComment_loop1 src n i) \<le> n"
proof (induction src n i rule: blockComment_loop1.induct)
  case (1 src n i)
  then show ?case
    by (subst blockComment_loop1.simps) auto
qed

lemma blockComment_loop2_ge: "i \<le> snd (blockComment_loop2 src n i)"
proof (induction src n i rule: blockComment_loop2.induct)
  case (1 src n i)
  then show ?case
    by (subst blockComment_loop2.simps) (auto dest: Suc_leD)
qed

lemma blockComment_loop2_le: "i \<le> n \<Longrightarrow> snd (blockComment_loop2 src n i) \<le> n"
proof (induction src n i rule: blockComment_loop2.induct)
  case (1 src n i)
  then show ?case
    by (subst blockComment_loop2.simps) auto
qed

lemma dollarTag_loop_ge: "dollarTag_loop src n i = Some i1 \<Longrightarrow> i \<le> i1"
proof (induction src n i rule: dollarTag_loop.induct)
  case (1 src n i)
  from "1.prems" "1.IH" show ?case
    by (auto simp: dollarTag_loop.simps [of src n i] Let_def split: if_splits dest: Suc_leD)
qed

lemma dollarTag_loop_le: "dollarTag_loop src n i = Some i1 \<Longrightarrow> i \<le> n \<Longrightarrow> i1 \<le> n"
proof (induction src n i rule: dollarTag_loop.induct)
  case (1 src n i)
  from "1.prems" "1.IH" show ?case
    by (auto simp: dollarTag_loop.simps [of src n i] Let_def split: if_splits dest: Suc_leD)
qed

lemma space_loop_ge: "i \<le> space_loop src n i"
proof (induction src n i rule: space_loop.induct)
  case (1 src n i)
  then show ?case
    by (subst space_loop.simps) (auto dest: Suc_leD)
qed

lemma space_loop_le: "i \<le> n \<Longrightarrow> space_loop src n i \<le> n"
proof (induction src n i rule: space_loop.induct)
  case (1 src n i)
  then show ?case
    by (subst space_loop.simps) auto
qed

lemma oracleClose_loop_bounds:
  "oracleClose_loop cd src n i = Some i4 \<Longrightarrow> i < i4 \<and> i4 \<le> n"
proof (induction cd src n i rule: oracleClose_loop.induct)
  case (1 cd src n i)
  from "1.prems" "1.IH" show ?case
    by (auto simp: oracleClose_loop.simps [of cd src n i] Let_def split: if_splits
             dest: Suc_lessD)
qed

lemma name_loop_ge: "j \<le> name_loop src n j"
proof (induction src n j rule: name_loop.induct)
  case (1 src n j)
  then show ?case
    by (subst name_loop.simps) (auto dest: Suc_leD)
qed

lemma name_loop_le: "j \<le> n \<Longrightarrow> name_loop src n j \<le> n"
proof (induction src n j rule: name_loop.induct)
  case (1 src n j)
  then show ?case
    by (subst name_loop.simps) auto
qed

lemma take_eq_length: "take k xs = ys \<Longrightarrow> length ys = min k (length xs)"
  by auto

lemma take_length_self_le: "take (length ys) xs = ys \<Longrightarrow> length ys \<le> length xs"
  using take_eq_length [of "length ys" xs ys] by linarith

lemma strings_Index_bound:
  "strings_Index s sub = Some idx \<Longrightarrow> idx + length sub \<le> length s"
proof (induction s arbitrary: idx)
  case Nil
  then show ?case by (auto split: if_splits)
next
  case (Cons c cs)
  show ?case
  proof (cases "take (length sub) (c # cs) = sub")
    case True
    then have "length sub \<le> length (c # cs)"
      by (rule take_length_self_le)
    with Cons.prems True show ?thesis by simp
  next
    case False
    with Cons.prems obtain k where "strings_Index cs sub = Some k" "idx = Suc k"
      by auto
    with Cons.IH show ?thesis by fastforce
  qed
qed

subsection \<open>Every skipper only moves the cursor, and moves it forward\<close>

text \<open>\<open>cursor_to s k\<close> is the state \<open>s\<close> with the cursor at \<open>k\<close> and nothing else changed.\<close>

definition cursor_to :: "parseState \<Rightarrow> nat \<Rightarrow> parseState" where
  "cursor_to s k = s\<lparr>s_i := k\<rparr>"

lemma cursor_to_sel [simp]:
  "s_i (cursor_to s k) = k" "s_n (cursor_to s k) = s_n s" "s_src (cursor_to s k) = s_src s"
  "s_edits (cursor_to s k) = s_edits s" "s_tokens (cursor_to s k) = s_tokens s"
  "s_order (cursor_to s k) = s_order s" "s_indexOf (cursor_to s k) = s_indexOf s"
  by (simp_all add: cursor_to_def)

text \<open>
  \<open>moves s s'\<close>: \<open>s'\<close> is \<open>s\<close> with the cursor strictly further, still inside the text,
  and nothing else changed.
\<close>

definition moves :: "parseState \<Rightarrow> parseState \<Rightarrow> bool" where
  "moves s s' \<longleftrightarrow> s' = cursor_to s (s_i s') \<and> s_i s < s_i s' \<and> s_i s' \<le> s_n s"

lemma movesI: "s_i s < k \<Longrightarrow> k \<le> s_n s \<Longrightarrow> moves s (s\<lparr>s_i := k\<rparr>)"
  by (simp add: moves_def cursor_to_def)

lemma consumeSingleQuoted_moves: "s_i s < s_n s \<Longrightarrow> moves s (consumeSingleQuoted s)"
  unfolding consumeSingleQuoted_def
  using singleQuoted_loop_ge [of "s_i s + 1" "s_src s" "s_n s"]
        singleQuoted_loop_le [of "s_i s + 1" "s_n s" "s_src s"]
  by (intro movesI) simp_all

lemma consumeDoubleQuoted_moves: "s_i s < s_n s \<Longrightarrow> moves s (consumeDoubleQuoted s)"
  unfolding consumeDoubleQuoted_def
  using closing_loop_ge [of "s_i s + 1" dquote "s_src s" "s_n s"]
        closing_loop_le [of "s_i s + 1" "s_n s" dquote "s_src s"]
  by (intro movesI) simp_all

lemma consumeBacktick_moves: "s_i s < s_n s \<Longrightarrow> moves s (consumeBacktick s)"
  unfolding consumeBacktick_def
  using closing_loop_ge [of "s_i s + 1" backtick "s_src s" "s_n s"]
        closing_loop_le [of "s_i s + 1" "s_n s" backtick "s_src s"]
  by (intro movesI) simp_all

lemma consumeBracketIdent_moves: "s_i s < s_n s \<Longrightarrow> moves s (consumeBracketIdent s)"
  unfolding consumeBracketIdent_def
  using closing_loop_ge [of "s_i s + 1" "CHR '']''" "s_src s" "s_n s"]
        closing_loop_le [of "s_i s + 1" "s_n s" "CHR '']''" "s_src s"]
  by (intro movesI) simp_all

lemma consumeHashComment_moves: "s_i s < s_n s \<Longrightarrow> moves s (consumeHashComment s)"
  unfolding consumeHashComment_def
  using line_loop_ge [of "s_i s + 1" "s_src s" "s_n s"]
        line_loop_le [of "s_i s + 1" "s_n s" "s_src s"]
  by (intro movesI) simp_all

lemma consumeDashDash_moves:
  "s_i s + 1 < s_n s \<Longrightarrow> moves s (consumeDashDash (advance s 2))"
proof -
  assume a: "s_i s + 1 < s_n s"
  have eq: "consumeDashDash (advance s 2) = s\<lparr>s_i := line_loop (s_src s) (s_n s) (s_i s + 2)\<rparr>"
    by (simp add: consumeDashDash_def advance_def)
  show ?thesis
    unfolding eq
    using a line_loop_ge [of "s_i s + 2" "s_src s" "s_n s"]
          line_loop_le [of "s_i s + 2" "s_n s" "s_src s"]
    by (intro movesI) simp_all
qed

lemma advance_moves: "0 < k \<Longrightarrow> s_i s + k \<le> s_n s \<Longrightarrow> moves s (advance s k)"
  unfolding advance_def by (intro movesI) simp_all

lemma consumeBlockComment_moves:
  "s_i s + 1 < s_n s \<Longrightarrow> moves s (consumeBlockComment s)"
proof -
  assume a: "s_i s + 1 < s_n s"
  obtain f1 i1 where l1: "blockComment_loop1 (s_src s) (s_n s) (s_i s + 2) = (f1, i1)"
    by (cases "blockComment_loop1 (s_src s) (s_n s) (s_i s + 2)")
  obtain f2 i2 where l2: "blockComment_loop2 (s_src s) (s_n s) i1 = (f2, i2)"
    by (cases "blockComment_loop2 (s_src s) (s_n s) i1")
  have b1: "s_i s + 2 \<le> i1" "i1 \<le> s_n s"
    using blockComment_loop1_ge [of "s_i s + 2" "s_src s" "s_n s"]
          blockComment_loop1_le [of "s_i s + 2" "s_n s" "s_src s"] l1 a
    by simp_all
  have b2: "i1 \<le> i2" "i2 \<le> s_n s"
    using blockComment_loop2_ge [of i1 "s_src s" "s_n s"]
          blockComment_loop2_le [of i1 "s_n s" "s_src s"] l2 b1
    by simp_all
  have "consumeBlockComment s = s\<lparr>s_i := (if f1 then i1 else if f2 then i2 else s_n s)\<rparr>"
    using l1 l2 by (simp add: consumeBlockComment_def)
  moreover have "moves s (s\<lparr>s_i := (if f1 then i1 else if f2 then i2 else s_n s)\<rparr>)"
    using a b1 b2 by (intro movesI) auto
  ultimately show ?thesis by simp
qed

lemma consumeDollarQuoted_moves:
  "s_i s < s_n s \<Longrightarrow> s_n s = length (s_src s) \<Longrightarrow> moves s (consumeDollarQuoted s)"
proof -
  assume a: "s_i s < s_n s" and n: "s_n s = length (s_src s)"
  show ?thesis
  proof (cases "dollarTag_loop (s_src s) (s_n s) (s_i s + 1)")
    case None
    then have "consumeDollarQuoted s = s\<lparr>s_i := s_i s + 1\<rparr>"
      by (simp add: consumeDollarQuoted_def)
    moreover have "moves s (s\<lparr>s_i := s_i s + 1\<rparr>)"
      using a by (intro movesI) simp_all
    ultimately show ?thesis by simp
  next
    case (Some i1)
    have b1: "s_i s + 1 \<le> i1" "i1 \<le> s_n s"
      using dollarTag_loop_ge [OF Some] dollarTag_loop_le [OF Some] a by simp_all
    show ?thesis
    proof (cases "strings_Index (drop i1 (s_src s)) (slice (s_src s) (s_i s) i1)")
      case None
      then have "consumeDollarQuoted s = s\<lparr>s_i := s_n s\<rparr>"
        using \<open>dollarTag_loop (s_src s) (s_n s) (s_i s + 1) = Some i1\<close>
        by (simp add: consumeDollarQuoted_def Let_def)
      moreover have "moves s (s\<lparr>s_i := s_n s\<rparr>)"
        using a by (intro movesI) simp_all
      ultimately show ?thesis by simp
    next
      case (Some idx)
      from strings_Index_bound [OF Some]
      have le: "i1 + (idx + length (slice (s_src s) (s_i s) i1)) \<le> s_n s"
        using n b1 by simp
      have "consumeDollarQuoted s =
              s\<lparr>s_i := i1 + (idx + length (slice (s_src s) (s_i s) i1))\<rparr>"
        using Some \<open>dollarTag_loop (s_src s) (s_n s) (s_i s + 1) = Some i1\<close> b1
        by (simp add: consumeDollarQuoted_def Let_def)
      moreover have "moves s (s\<lparr>s_i := i1 + (idx + length (slice (s_src s) (s_i s) i1))\<rparr>)"
        using le b1 by (intro movesI) simp_all
      ultimately show ?thesis by simp
    qed
  qed
qed

lemma consumeOracleQ_moves: "s_i s < s_n s \<Longrightarrow> moves s (consumeOracleQ s)"
proof -
  assume a: "s_i s < s_n s"
  define i1 where "i1 = space_loop (s_src s) (s_n s) (s_i s + 1)"
  define r where
    "r = oracleClose_loop (closeDelimOf (s_src s ! (i1 + 1))) (s_src s) (s_n s) (i1 + 1 + 1)"
  have b1: "s_i s + 1 \<le> i1"
    unfolding i1_def by (rule space_loop_ge)
  have stay: "moves s (s\<lparr>s_i := s_i s + 1\<rparr>)" and eof: "moves s (s\<lparr>s_i := s_n s\<rparr>)"
    using a by (simp_all add: movesI)
  have closed: "moves s (case r of Some i4 \<Rightarrow> s\<lparr>s_i := i4\<rparr> | None \<Rightarrow> s\<lparr>s_i := s_n s\<rparr>)"
  proof (cases r)
    case None
    then show ?thesis using eof by simp
  next
    case (Some i4)
    from oracleClose_loop_bounds [OF Some [unfolded r_def]] b1
    have "s_i s < i4" "i4 \<le> s_n s" by simp_all
    then show ?thesis using Some by (simp add: movesI)
  qed
  show ?thesis
    unfolding consumeOracleQ_def Let_def i1_def [symmetric] r_def [symmetric]
    using stay eof closed by (simp only: split: if_split) blast
qed

text \<open>\<open>getIndex\<close> touches the registry only.\<close>

lemma getIndex_frame:
  "getIndex s name = (s2, idx) \<Longrightarrow>
   s_src s2 = s_src s \<and> s_n s2 = s_n s \<and> s_i s2 = s_i s \<and> s_edits s2 = s_edits s \<and>
   s_tokens s2 = s_tokens s"
  by (auto simp: getIndex_def Let_def split: option.splits)

lemma consumePlaceholder_frame:
  "consumePlaceholder U f s = (s', e) \<Longrightarrow> s_src s' = s_src s \<and> s_n s' = s_n s"
  by (auto simp: consumePlaceholder_def Let_def split: if_splits prod.splits
           dest!: getIndex_frame)

lemma consumePlaceholder_progress:
  "consumePlaceholder U f s = (s', e) \<Longrightarrow> s_i s < s_i s'"
  using name_loop_ge [of "s_i s + 1" "s_src s" "s_n s"]
  by (auto simp: consumePlaceholder_def Let_def split: if_splits prod.splits
           dest!: getIndex_frame)

lemma consumePlaceholder_bound:
  "consumePlaceholder U f s = (s', e) \<Longrightarrow> s_i s < s_n s \<Longrightarrow> s_i s' \<le> s_n s"
  using name_loop_le [of "s_i s + 1" "s_n s" "s_src s"]
  by (auto simp: consumePlaceholder_def Let_def split: if_splits prod.splits
           dest!: getIndex_frame)

subsection \<open>Progress of one dispatch step\<close>

text \<open>
  \<open>advances s s'\<close> is what the termination of the scan needs: the cursor is strictly
  further and the text is the same. It holds for every state with \<open>s.i < s.n\<close>, also
  one whose \<open>n\<close> is not the length of its text.
\<close>

definition advances :: "parseState \<Rightarrow> parseState \<Rightarrow> bool" where
  "advances s s' \<longleftrightarrow> s_i s < s_i s' \<and> s_n s' = s_n s \<and> s_src s' = s_src s"

lemma moves_advances: "moves s s' \<Longrightarrow> advances s s'"
  unfolding moves_def advances_def
  by (metis cursor_to_sel(2) cursor_to_sel(3))

lemma advance_advances: "0 < k \<Longrightarrow> advances s (advance s k)"
  by (simp add: advances_def advance_def)

lemma consumeDashDash_advances: "advances s (consumeDashDash (advance s 2))"
  using line_loop_ge [of "s_i s + 2" "s_src s" "s_n s"]
  by (simp add: advances_def consumeDashDash_def advance_def)

lemma consumeBlockComment_advances: "s_i s < s_n s \<Longrightarrow> advances s (consumeBlockComment s)"
proof -
  assume a: "s_i s < s_n s"
  obtain f1 i1 where l1: "blockComment_loop1 (s_src s) (s_n s) (s_i s + 2) = (f1, i1)"
    by (cases "blockComment_loop1 (s_src s) (s_n s) (s_i s + 2)")
  obtain f2 i2 where l2: "blockComment_loop2 (s_src s) (s_n s) i1 = (f2, i2)"
    by (cases "blockComment_loop2 (s_src s) (s_n s) i1")
  have b1: "s_i s + 2 \<le> i1"
    using blockComment_loop1_ge [of "s_i s + 2" "s_src s" "s_n s"] l1 by simp
  have b2: "i1 \<le> i2"
    using blockComment_loop2_ge [of i1 "s_src s" "s_n s"] l2 by simp
  have "consumeBlockComment s = s\<lparr>s_i := (if f1 then i1 else if f2 then i2 else s_n s)\<rparr>"
    using l1 l2 by (simp add: consumeBlockComment_def)
  then show ?thesis using a b1 b2 by (simp add: advances_def)
qed

lemma consumeDollarQuoted_advances: "s_i s < s_n s \<Longrightarrow> advances s (consumeDollarQuoted s)"
proof -
  assume a: "s_i s < s_n s"
  show ?thesis
  proof (cases "dollarTag_loop (s_src s) (s_n s) (s_i s + 1)")
    case None
    then show ?thesis by (simp add: consumeDollarQuoted_def advances_def)
  next
    case (Some i1)
    have b1: "s_i s + 1 \<le> i1"
      using dollarTag_loop_ge [OF Some] by simp
    show ?thesis
      using a Some b1
      by (cases "strings_Index (drop i1 (s_src s)) (slice (s_src s) (s_i s) i1)")
         (simp_all add: consumeDollarQuoted_def Let_def advances_def)
  qed
qed

lemma consumePlaceholder_advances: "advances s (fst (consumePlaceholder U f s))"
proof -
  obtain s' e where r: "consumePlaceholder U f s = (s', e)"
    by (cases "consumePlaceholder U f s")
  from consumePlaceholder_progress [OF r] consumePlaceholder_frame [OF r] r
  show ?thesis by (simp add: advances_def)
qed

lemma step_advances:
  assumes "s_i s < s_n s"
  shows "advances s (fst (step U f s))"
proof -
  note facts =
    consumeDashDash_advances [of s]
    advance_advances [of 1 s] advance_advances [of 2 s]
    moves_advances [OF consumeHashComment_moves [OF assms]]
    consumeBlockComment_advances [OF assms]
    moves_advances [OF consumeSingleQuoted_moves [OF assms]]
    moves_advances [OF consumeDoubleQuoted_moves [OF assms]]
    moves_advances [OF consumeBacktick_moves [OF assms]]
    moves_advances [OF consumeBracketIdent_moves [OF assms]]
    consumeDollarQuoted_advances [OF assms]
    moves_advances [OF consumeOracleQ_moves [OF assms]]
    consumePlaceholder_advances [of s U f]
  have push: "\<And>c a b. advances s (fst (if c then a else b)) =
                 (if c then advances s (fst a) else advances s (fst b))"
    by simp
  show ?thesis
    unfolding step_def Let_def
    by (simp only: push fst_conv facts if_True if_False if_cancel zero_less_one
                   zero_less_numeral)
qed

text \<open>
  The main loop of \<open>ParseSQL\<close>. It stops at the end of the text, or as soon as
  \<open>consumePlaceholder\<close> reports an error. Its termination is the progress of \<open>step\<close>.
\<close>

function scan ::
    "unicode_tables \<Rightarrow> FormatParamFunc \<Rightarrow> parseState \<Rightarrow> parseState \<times> error option" where
  "scan U formatFunc s =
     (if s_i s < s_n s then
        (case step U formatFunc s of
           (s', Some err) \<Rightarrow> (s', Some err)
         | (s', None) \<Rightarrow> scan U formatFunc s')
      else (s, None))"
  by pat_completeness auto
termination
proof (relation "measure (\<lambda>(U, formatFunc, s). s_n s - s_i s)")
  show "wf (measure (\<lambda>(U, formatFunc, s). s_n s - s_i s))" by simp
next
  fix U :: unicode_tables and formatFunc :: FormatParamFunc and s x1 :: parseState
    and x2 :: "error option"
  assume a: "s_i s < s_n s" and st: "(x1, x2) = step U formatFunc s"
  from step_advances [OF a, of U formatFunc] st have "advances s x1"
    by (metis fst_conv)
  then show "((U, formatFunc, x1), U, formatFunc, s)
             \<in> measure (\<lambda>(U, formatFunc, s). s_n s - s_i s)"
    using a by (auto simp: advances_def intro: diff_less_mono2)
qed

declare scan.simps [simp del]

text \<open>
  \<open>ParseSQL\<close>. The format function is a Go function value that may be \<open>nil\<close>: an option.
  The result is the pair the Go function returns; next to an error the \<open>ParsedSQL\<close> is
  the zero value it was declared with.
\<close>

definition ParseSQL ::
    "unicode_tables \<Rightarrow> SQLQuery \<Rightarrow> FormatParamFunc option \<Rightarrow> ParsedSQL \<times> error option" where
  "ParseSQL U sqlText formatFunc =
     (case formatFunc of
        None \<Rightarrow> (zeroParsedSQL, Some ErrFormatParamFuncRequired)
      | Some f \<Rightarrow>
          (case scan U f (newParseState sqlText) of
             (state, Some err) \<Rightarrow> (zeroParsedSQL, Some err)
           | (state, None) \<Rightarrow>
               if length (s_edits state) = 0 then
                 (NewParsedSQLWithOccurrences (s_src state) (Parameters (s_tokens state))
                    (s_tokens state), None)
               else
                 (NewParsedSQLWithOccurrences (buildSQL state)
                    (Parameters (orderedTokens state)) (s_tokens state), None)))"

section \<open>Concrete format functions and tables, for evaluation\<close>

text \<open>
  The format functions of the README: \<open>mysqlFormat\<close> returns \<open>?\<close> for every index,
  \<open>postgresFormat\<close> is \<open>fmt.Sprintf("$%d", i)\<close>.
\<close>

definition mysqlFormat :: FormatParamFunc where
  "mysqlFormat i = ''?''"

function itoa :: "nat \<Rightarrow> string" where
  "itoa k = (if k < 10 then [''0123456789'' ! k] else itoa (k div 10) @ [''0123456789'' ! (k mod 10)])"
  by pat_completeness auto
termination
  by (relation "measure id") auto

declare itoa.simps [simp del]

definition postgresFormat :: FormatParamFunc where
  "postgresFormat i = CHR ''$'' # itoa i"

text \<open>Tables that know no letter and no digit beyond Latin-1.\<close>

definition latin1_only :: unicode_tables where
  "latin1_only = \<lparr>isLetterHigh = (\<lambda>r. False), isDigitHigh = (\<lambda>r. False)\<rparr>"

section \<open>States the scan passes through\<close>

text \<open>
  \<open>reaches U f s s'\<close>: the main loop, started in \<open>s\<close>, arrives at the top of the loop in
  state \<open>s'\<close> after some number of iterations, none of which returned an error.
\<close>

inductive reaches ::
    "unicode_tables \<Rightarrow> FormatParamFunc \<Rightarrow> parseState \<Rightarrow> parseState \<Rightarrow> bool"
    for U :: unicode_tables and f :: FormatParamFunc and s :: parseState where
  reaches_refl: "reaches U f s s"
| reaches_step:
    "reaches U f s s1 \<Longrightarrow> s_i s1 < s_n s1 \<Longrightarrow> step U f s1 = (s2, None) \<Longrightarrow> reaches U f s s2"

text \<open>The main loop cut off after \<open>k\<close> iterations; \<open>None\<close> when it has not ended by then.\<close>

fun scan_fuel ::
    "nat \<Rightarrow> unicode_tables \<Rightarrow> FormatParamFunc \<Rightarrow> parseState \<Rightarrow>
     (parseState \<times> error option) option" where
  "scan_fuel 0 U f s = (if s_i s < s_n s then None else Some (s, None))"
| "scan_fuel (Suc k) U f s =
     (if s_i s < s_n s then
        (case step U f s of
           (s', Some err) \<Rightarrow> Some (s', Some err)
         | (s', None) \<Rightarrow> scan_fuel k U f s')
      else Some (s, None))"

text \<open>The placeholder branch of the dispatch, and the raw name it scans.\<close>

definition atPlaceholder :: "parseState \<Rightarrow> bool" where
  "atPlaceholder s \<longleftrightarrow>
     s_src s ! s_i s = CHR '':'' \<and> peek s 1 \<noteq> CHR '':'' \<and> s_i s + 1 < s_n s \<and>
     isValidIdentifierStart (s_src s ! (s_i s + 1))"

definition rawNameAt :: "parseState \<Rightarrow> string" where
  "rawNameAt s = slice (s_src s) (s_i s + 1) (name_loop (s_src s) (s_n s) (s_i s + 1))"

section \<open>Evaluation rules\<close>

lemmas loop_simps =
  singleQuoted_loop.simps closing_loop.simps line_loop.simps blockComment_loop1.simps
  blockComment_loop2.simps dollarTag_loop.simps space_loop.simps oracleClose_loop.simps
  readIdent_loop.simps readDigits_loop.simps isValidName_loop.simps name_loop.simps
  scan.simps itoa.simps

lemmas def_simps =
  ParseSQL_def newParseState_def step_def peek_def advance_def consumeSingleQuoted_def
  consumeDoubleQuoted_def consumeBacktick_def consumeBracketIdent_def consumeDashDash_def
  consumeHashComment_def consumeBlockComment_def consumeDollarQuoted_def consumeOracleQ_def
  consumePlaceholder_def getIndex_def isValidName_def readIdent_def readDigits_def utf8At_def
  decodeRune_def runeLen_def is_cont_def
  isLetterOrUnderscore_def isLetterDigitOrUnderscore_def unicode_IsLetter_def
  unicode_IsDigit_def latin1_letter_def byte_IsLetter_def byte_IsDigit_def byte_IsSpace_def
  isValidIdentifierStart_def isValidIdentifierChar_def slice_def closeDelimOf_def buildSQL_def
  orderedTokens_def Parameters_def NewParameter_def NewParsedSQLWithOccurrences_def
  zeroParsedSQL_def zeroQueryToken_def mysqlFormat_def postgresFormat_def latin1_only_def
  atPlaceholder_def rawNameAt_def Let_def

section \<open>What the scan maintains\<close>

lemma peek_in_range: "peek s 1 = c \<Longrightarrow> c \<noteq> CHR 0x00 \<Longrightarrow> s_i s + 1 < s_n s"
  by (auto simp: peek_def split: if_splits)

text \<open>A branch of the dispatch other than the placeholder branch only moves the cursor.\<close>

lemma step_skip:
  assumes a: "s_i s < s_n s" and n: "s_n s = length (s_src s)" and np: "\<not> atPlaceholder s"
  shows "snd (step U f s) = None \<and> moves s (fst (step U f s))"
proof -
  have d2: "peek s 1 = CHR ''-'' \<Longrightarrow> moves s (consumeDashDash (advance s 2))"
    using consumeDashDash_moves [of s] peek_in_range [of s "CHR ''-''"] by simp
  have bc: "peek s 1 = CHR ''*'' \<Longrightarrow> moves s (consumeBlockComment s)"
    using consumeBlockComment_moves [of s] peek_in_range [of s "CHR ''*''"] by simp
  have a2: "peek s 1 = CHR '':'' \<Longrightarrow> moves s (advance s 2)"
    using advance_moves [of 2 s] peek_in_range [of s "CHR '':''"] by simp
  have a1: "moves s (advance s 1)"
    using advance_moves [of 1 s] a by simp
  note facts = d2 bc a2 a1
    consumeHashComment_moves [OF a] consumeSingleQuoted_moves [OF a]
    consumeDoubleQuoted_moves [OF a] consumeBacktick_moves [OF a]
    consumeBracketIdent_moves [OF a] consumeDollarQuoted_moves [OF a n]
    consumeOracleQ_moves [OF a]
  show ?thesis
    using np facts unfolding step_def Let_def atPlaceholder_def
    by (auto split: if_splits)
qed

lemma step_placeholder: "atPlaceholder s \<Longrightarrow> step U f s = consumePlaceholder U f s"
  by (simp add: step_def atPlaceholder_def Let_def)

text \<open>The edit span of a token.\<close>

definition tok_edit :: "FormatParamFunc \<Rightarrow> QueryToken \<Rightarrow> editState" where
  "tok_edit f t = \<lparr>e_start = Start t, e_end = End t, e_repl = f (Index t)\<rparr>"

text \<open>
  \<open>chain lo ts hi\<close>: the tokens \<open>ts\<close> are non-empty spans in source order, without
  overlap, between the offsets \<open>lo\<close> and \<open>hi\<close>.
\<close>

fun chain :: "nat \<Rightarrow> QueryToken list \<Rightarrow> nat \<Rightarrow> bool" where
  "chain lo [] hi \<longleftrightarrow> lo \<le> hi"
| "chain lo (t # ts) hi \<longleftrightarrow> lo \<le> Start t \<and> Start t < End t \<and> chain (End t) ts hi"

lemma chain_le: "chain lo ts hi \<Longrightarrow> lo \<le> hi"
  by (induction ts arbitrary: lo) fastforce+

lemma chain_mono: "chain lo ts hi \<Longrightarrow> hi \<le> hi' \<Longrightarrow> chain lo ts hi'"
  by (induction ts arbitrary: lo) auto

lemma chain_append:
  "chain lo (xs @ ys) hi \<longleftrightarrow> (\<exists>mid. chain lo xs mid \<and> chain mid ys hi)"
proof (induction xs arbitrary: lo)
  case Nil
  show ?case
  proof
    assume "chain lo ([] @ ys) hi"
    then have "chain lo [] lo \<and> chain lo ys hi" by simp
    then show "\<exists>mid. chain lo [] mid \<and> chain mid ys hi" by blast
  next
    assume "\<exists>mid. chain lo [] mid \<and> chain mid ys hi"
    then obtain mid where m: "lo \<le> mid" "chain mid ys hi" by auto
    then have "chain lo ys hi" by (cases ys) auto
    then show "chain lo ([] @ ys) hi" by simp
  qed
next
  case (Cons x xs)
  then show ?case by auto
qed

lemma chain_snoc:
  "chain lo ts hi \<Longrightarrow> hi \<le> Start t \<Longrightarrow> Start t < End t \<Longrightarrow> End t \<le> hi' \<Longrightarrow>
   chain lo (ts @ [t]) hi'"
  unfolding chain_append by (rule exI [of _ hi]) simp

lemma chain_bounds: "chain lo ts hi \<Longrightarrow> t \<in> set ts \<Longrightarrow> lo \<le> Start t \<and> End t \<le> hi"
proof (induction ts arbitrary: lo)
  case Nil
  then show ?case by simp
next
  case (Cons x xs)
  from Cons.prems(1) have c: "lo \<le> Start x" "Start x < End x" "chain (End x) xs hi" by simp_all
  show ?case
  proof (cases "t = x")
    case True
    then show ?thesis using c chain_le [OF c(3)] by simp
  next
    case False
    with Cons.prems(2) have "t \<in> set xs" by simp
    from Cons.IH [OF c(3) this] c show ?thesis by simp
  qed
qed

text \<open>
  What holds of every token the recognizer emits: it starts at a \<open>:\<close> that is followed
  by an identifier start, its name is the maximal run of name bytes after the \<open>:\<close>, and
  the name passed \<open>isValidName\<close>.
\<close>

definition tok_ok :: "unicode_tables \<Rightarrow> string \<Rightarrow> QueryToken \<Rightarrow> bool" where
  "tok_ok U src t \<longleftrightarrow>
     Start t + 1 < End t \<and> End t \<le> length src \<and> src ! Start t = CHR '':'' \<and>
     isValidIdentifierStart (src ! (Start t + 1)) \<and>
     Name t = slice src (Start t + 1) (End t) \<and> Raw t = slice src (Start t) (End t) \<and>
     (\<forall>c \<in> set (Name t). isValidIdentifierChar c) \<and>
     (End t < length src \<longrightarrow> \<not> isValidIdentifierChar (src ! End t)) \<and>
     isValidName U (Name t)"

text \<open>The names of a list in the order of their first occurrence.\<close>

definition first_occ :: "'a list \<Rightarrow> 'a list" where
  "first_occ xs = rev (remdups (rev xs))"

lemma first_occ_snoc:
  "first_occ (xs @ [x]) = (if x \<in> set xs then first_occ xs else first_occ xs @ [x])"
  by (simp add: first_occ_def)

lemma set_first_occ [simp]: "set (first_occ xs) = set xs"
  by (simp add: first_occ_def)

lemma distinct_first_occ [simp]: "distinct (first_occ xs)"
  by (simp add: first_occ_def)

text \<open>
  The registry: \<open>order\<close> holds the names of the tokens in first-occurrence order,
  \<open>indexOf\<close> maps the name at position \<open>k\<close> (from 0) to \<open>k + 1\<close> and no other name, and
  every token carries the index of its name.
\<close>

definition registry_ok :: "parseState \<Rightarrow> bool" where
  "registry_ok s \<longleftrightarrow>
     first_occ (map Name (s_tokens s)) = s_order s \<and>
     (\<forall>nm. nm \<notin> set (s_order s) \<longrightarrow> s_indexOf s nm = None) \<and>
     (\<forall>k < length (s_order s). s_indexOf s (s_order s ! k) = Some (k + 1)) \<and>
     (\<forall>t \<in> set (s_tokens s). s_indexOf s (Name t) = Some (Index t))"

definition scanInv :: "unicode_tables \<Rightarrow> FormatParamFunc \<Rightarrow> parseState \<Rightarrow> bool" where
  "scanInv U f s \<longleftrightarrow>
     s_n s = length (s_src s) \<and> s_i s \<le> s_n s \<and>
     s_edits s = map (tok_edit f) (s_tokens s) \<and>
     chain 0 (s_tokens s) (s_i s) \<and>
     (\<forall>t \<in> set (s_tokens s). tok_ok U (s_src s) t) \<and>
     registry_ok s"

lemma scanInv_init: "scanInv U f (newParseState src)"
  by (simp add: scanInv_def newParseState_def registry_ok_def first_occ_def)

lemma registry_ok_cursor_to [simp]: "registry_ok (cursor_to s k) = registry_ok s"
  by (simp add: registry_ok_def)

lemma scanInv_moves: "scanInv U f s \<Longrightarrow> moves s s' \<Longrightarrow> scanInv U f s'"
proof -
  assume inv: "scanInv U f s" and m: "moves s s'"
  from m have s': "s' = cursor_to s (s_i s')" and lt: "s_i s < s_i s'" and le: "s_i s' \<le> s_n s"
    by (simp_all add: moves_def)
  have "scanInv U f (cursor_to s (s_i s'))"
    using inv lt le chain_mono [of 0 "s_tokens s" "s_i s" "s_i s'"]
    by (simp add: scanInv_def)
  with s' show ?thesis by simp
qed

subsection \<open>The name scanned by the recognizer\<close>

lemma name_loop_chars:
  "j \<le> k \<Longrightarrow> k < name_loop src n j \<Longrightarrow> isValidIdentifierChar (src ! k)"
proof (induction src n j rule: name_loop.induct)
  case (1 src n j)
  show ?case
  proof (cases "j < n \<and> isValidIdentifierChar (src ! j)")
    case True
    then have eq: "name_loop src n j = name_loop src n (j + 1)"
      by (subst name_loop.simps) simp
    show ?thesis
    proof (cases "k = j")
      case True
      with \<open>j < n \<and> isValidIdentifierChar (src ! j)\<close> show ?thesis by simp
    next
      case False
      with "1.prems" have "j + 1 \<le> k" by simp
      from "1.IH" [OF True this] "1.prems"(2) eq show ?thesis by simp
    qed
  next
    case False
    then have "name_loop src n j = j" by (auto simp: name_loop.simps [of src n j])
    with "1.prems" show ?thesis by simp
  qed
qed

lemma name_loop_stop:
  "name_loop src n j < n \<Longrightarrow> \<not> isValidIdentifierChar (src ! name_loop src n j)"
proof (induction src n j rule: name_loop.induct)
  case (1 src n j)
  show ?case
  proof (cases "j < n \<and> isValidIdentifierChar (src ! j)")
    case True
    then have eq: "name_loop src n j = name_loop src n (j + 1)"
      by (subst name_loop.simps) simp
    from "1.IH" [OF True] "1.prems" eq show ?thesis by simp
  next
    case False
    then have eq: "name_loop src n j = j" by (auto simp: name_loop.simps [of src n j])
    with "1.prems" False show ?thesis by simp
  qed
qed

lemma name_loop_first:
  "j < n \<Longrightarrow> isValidIdentifierChar (src ! j) \<Longrightarrow> j < name_loop src n j"
proof -
  assume a: "j < n" "isValidIdentifierChar (src ! j)"
  then have "name_loop src n j = name_loop src n (j + 1)"
    by (subst name_loop.simps) simp
  with name_loop_ge [of "j + 1" src n] show ?thesis by simp
qed

lemma set_slice:
  "c \<in> set (slice src a b) \<Longrightarrow> b \<le> length src \<Longrightarrow> \<exists>k. a \<le> k \<and> k < b \<and> c = src ! k"
proof -
  assume c: "c \<in> set (slice src a b)" and b: "b \<le> length src"
  then obtain m where m: "m < length (slice src a b)" "c = slice src a b ! m"
    by (metis in_set_conv_nth)
  from m(1) b have mb: "m < b - a" by (simp add: slice_def)
  with m(2) b have "c = src ! (a + m)" by (simp add: slice_def)
  with mb show ?thesis by (intro exI [of _ "a + m"]) simp
qed

text \<open>The state after a successful \<open>consumePlaceholder\<close>, field by field.\<close>

definition nameEnd :: "parseState \<Rightarrow> nat" where
  "nameEnd s = name_loop (s_src s) (s_n s) (s_i s + 1)"

definition newToken :: "parseState \<Rightarrow> nat \<Rightarrow> QueryToken" where
  "newToken s idx =
     \<lparr>Name = rawNameAt s, Index = idx, Start = s_i s, End = nameEnd s,
      Raw = slice (s_src s) (s_i s) (nameEnd s)\<rparr>"

lemma consumePlaceholder_invalid:
  "atPlaceholder s \<Longrightarrow> \<not> isValidName U (rawNameAt s) \<Longrightarrow>
   consumePlaceholder U f s =
     (s\<lparr>s_i := s_i s + 1\<rparr>, Some (ErrInvalidPlaceholderName (rawNameAt s) (s_i s)))"
  by (simp add: consumePlaceholder_def atPlaceholder_def rawNameAt_def Let_def)

lemma consumePlaceholder_known:
  "atPlaceholder s \<Longrightarrow> isValidName U (rawNameAt s) \<Longrightarrow> s_indexOf s (rawNameAt s) = Some idx \<Longrightarrow>
   consumePlaceholder U f s =
     (s\<lparr>s_i := nameEnd s, s_tokens := s_tokens s @ [newToken s idx],
        s_edits := s_edits s @ [tok_edit f (newToken s idx)]\<rparr>, None)"
  by (simp add: consumePlaceholder_def atPlaceholder_def rawNameAt_def Let_def getIndex_def
                nameEnd_def newToken_def tok_edit_def)

lemma consumePlaceholder_new:
  "atPlaceholder s \<Longrightarrow> isValidName U (rawNameAt s) \<Longrightarrow> s_indexOf s (rawNameAt s) = None \<Longrightarrow>
   idx = length (s_order s) + 1 \<Longrightarrow>
   consumePlaceholder U f s =
     (s\<lparr>s_i := nameEnd s, s_tokens := s_tokens s @ [newToken s idx],
        s_edits := s_edits s @ [tok_edit f (newToken s idx)],
        s_order := s_order s @ [rawNameAt s],
        s_indexOf := (s_indexOf s)(rawNameAt s \<mapsto> idx)\<rparr>, None)"
  by (simp add: consumePlaceholder_def atPlaceholder_def rawNameAt_def Let_def getIndex_def
                nameEnd_def newToken_def tok_edit_def)

lemma newToken_ok:
  assumes n: "s_n s = length (s_src s)" and p: "atPlaceholder s"
    and v: "isValidName U (rawNameAt s)"
  shows "tok_ok U (s_src s) (newToken s idx)"
proof -
  from p have c: "s_src s ! s_i s = CHR '':''" and lt: "s_i s + 1 < s_n s"
    and st: "isValidIdentifierStart (s_src s ! (s_i s + 1))"
    by (simp_all add: atPlaceholder_def)
  from st have ch: "isValidIdentifierChar (s_src s ! (s_i s + 1))"
    by (simp add: isValidIdentifierChar_def)
  have gt: "s_i s + 1 < nameEnd s"
    unfolding nameEnd_def by (rule name_loop_first [OF lt ch])
  have le: "nameEnd s \<le> length (s_src s)"
    unfolding nameEnd_def using name_loop_le [of "s_i s + 1" "s_n s" "s_src s"] lt n by simp
  have chars: "\<forall>c \<in> set (rawNameAt s). isValidIdentifierChar c"
  proof
    fix c assume "c \<in> set (rawNameAt s)"
    then have "c \<in> set (slice (s_src s) (s_i s + 1) (nameEnd s))"
      by (simp add: rawNameAt_def nameEnd_def)
    from set_slice [OF this le] obtain k where
      k: "s_i s + 1 \<le> k" "k < nameEnd s" "c = s_src s ! k" by blast
    from name_loop_chars [OF k(1) k(2) [unfolded nameEnd_def]] k(3)
    show "isValidIdentifierChar c" by simp
  qed
  have stop: "nameEnd s < length (s_src s) \<longrightarrow> \<not> isValidIdentifierChar (s_src s ! nameEnd s)"
    unfolding nameEnd_def using name_loop_stop [of "s_src s" "s_n s" "s_i s + 1"] n by simp
  show ?thesis
    using c st gt le chars stop v
    by (simp add: tok_ok_def newToken_def rawNameAt_def nameEnd_def)
qed

lemma registry_known:
  assumes r: "registry_ok s" and k: "s_indexOf s nm = Some idx" and nm: "Name t = nm"
    and ix: "Index t = idx"
  shows "registry_ok (s\<lparr>s_i := j, s_tokens := s_tokens s @ [t], s_edits := es\<rparr>)"
proof -
  from r k have "nm \<in> set (s_order s)"
    unfolding registry_ok_def by (metis option.distinct(1))
  with r have "nm \<in> set (map Name (s_tokens s))"
    unfolding registry_ok_def by (metis set_first_occ)
  then have "first_occ (map Name (s_tokens s) @ [nm]) = first_occ (map Name (s_tokens s))"
    by (simp add: first_occ_snoc)
  with r k nm ix show ?thesis
    by (simp add: registry_ok_def)
qed

lemma registry_new:
  assumes r: "registry_ok s" and k: "s_indexOf s nm = None" and nm: "Name t = nm"
    and ix: "Index t = length (s_order s) + 1"
  shows "registry_ok (s\<lparr>s_i := j, s_tokens := s_tokens s @ [t], s_edits := es,
                         s_order := s_order s @ [nm],
                         s_indexOf := (s_indexOf s)(nm \<mapsto> length (s_order s) + 1)\<rparr>)"
proof -
  from r have o: "first_occ (map Name (s_tokens s)) = s_order s"
    and a2: "\<And>x. x \<notin> set (s_order s) \<Longrightarrow> s_indexOf s x = None"
    and a3: "\<And>k. k < length (s_order s) \<Longrightarrow> s_indexOf s (s_order s ! k) = Some (k + 1)"
    and a4: "\<And>x. x \<in> set (s_tokens s) \<Longrightarrow> s_indexOf s (Name x) = Some (Index x)"
    by (simp_all add: registry_ok_def)
  have notin: "nm \<notin> set (s_order s)"
  proof
    assume "nm \<in> set (s_order s)"
    then obtain k where "k < length (s_order s)" "s_order s ! k = nm"
      by (metis in_set_conv_nth)
    with a3 [of k] k show False by simp
  qed
  then have notin': "nm \<notin> set (map Name (s_tokens s))"
    using o by (metis set_first_occ)
  have b1: "first_occ (map Name (s_tokens s @ [t])) = s_order s @ [nm]"
    using notin' o nm by (simp add: first_occ_snoc)
  have b2: "\<forall>x. x \<notin> set (s_order s @ [nm]) \<longrightarrow>
              ((s_indexOf s)(nm \<mapsto> length (s_order s) + 1)) x = None"
    using a2 by simp
  have b3: "\<forall>k < length (s_order s @ [nm]).
              ((s_indexOf s)(nm \<mapsto> length (s_order s) + 1)) ((s_order s @ [nm]) ! k) = Some (k + 1)"
  proof (intro allI impI)
    fix k assume kl: "k < length (s_order s @ [nm])"
    show "((s_indexOf s)(nm \<mapsto> length (s_order s) + 1)) ((s_order s @ [nm]) ! k) = Some (k + 1)"
    proof (cases "k < length (s_order s)")
      case True
      then have "s_order s ! k \<in> set (s_order s)" by simp
      with notin have "s_order s ! k \<noteq> nm" by metis
      with True a3 [OF True] show ?thesis by (simp add: nth_append)
    next
      case False
      with kl have "k = length (s_order s)" by simp
      then show ?thesis by simp
    qed
  qed
  have b4: "\<forall>x \<in> set (s_tokens s @ [t]).
              ((s_indexOf s)(nm \<mapsto> length (s_order s) + 1)) (Name x) = Some (Index x)"
  proof
    fix x assume "x \<in> set (s_tokens s @ [t])"
    then consider "x = t" | "x \<in> set (s_tokens s)" by auto
    then show "((s_indexOf s)(nm \<mapsto> length (s_order s) + 1)) (Name x) = Some (Index x)"
    proof cases
      case 1
      then show ?thesis using nm ix by simp
    next
      case 2
      then have "Name x \<noteq> nm" using notin' by auto
      with a4 [OF 2] show ?thesis by simp
    qed
  qed
  show ?thesis
    unfolding registry_ok_def using b1 b2 b3 b4 by simp
qed

text \<open>The placeholder branch, when it succeeds, appends one token and keeps the invariant.\<close>

lemma scanInv_placeholder:
  assumes inv: "scanInv U f s" and p: "atPlaceholder s"
    and r: "consumePlaceholder U f s = (s', None)"
  shows "scanInv U f s' \<and>
         (\<exists>t. s_tokens s' = s_tokens s @ [t] \<and> Start t = s_i s \<and> End t = s_i s')"
proof -
  from inv have n: "s_n s = length (s_src s)" and ed: "s_edits s = map (tok_edit f) (s_tokens s)"
    and ch: "chain 0 (s_tokens s) (s_i s)"
    and ok: "\<forall>t \<in> set (s_tokens s). tok_ok U (s_src s) t" and reg: "registry_ok s"
    by (simp_all add: scanInv_def)
  have v: "isValidName U (rawNameAt s)"
  proof (rule ccontr)
    assume "\<not> isValidName U (rawNameAt s)"
    from consumePlaceholder_invalid [OF p this, of f] r show False by simp
  qed
  have tk: "\<And>idx. tok_ok U (s_src s) (newToken s idx)"
    by (rule newToken_ok [OF n p v])
  have pos: "\<And>idx. Start (newToken s idx) = s_i s" "\<And>idx. End (newToken s idx) = nameEnd s"
    "\<And>idx. Name (newToken s idx) = rawNameAt s" "\<And>idx. Index (newToken s idx) = idx"
    by (simp_all add: newToken_def)
  have le: "nameEnd s \<le> s_n s"
    using tk [of 0] n by (simp add: tok_ok_def pos)
  have lt: "s_i s < nameEnd s"
    using tk [of 0] by (simp add: tok_ok_def pos)
  have chn: "\<And>idx. chain 0 (s_tokens s @ [newToken s idx]) (nameEnd s)"
    using chain_snoc [OF ch, of "newToken s idx" "nameEnd s" for idx] lt by (simp add: pos)
  show ?thesis
  proof (cases "s_indexOf s (rawNameAt s)")
    case None
    define idx where "idx = length (s_order s) + 1"
    from consumePlaceholder_new [OF p v None idx_def, of f] r
    have s': "s' = s\<lparr>s_i := nameEnd s, s_tokens := s_tokens s @ [newToken s idx],
        s_edits := s_edits s @ [tok_edit f (newToken s idx)],
        s_order := s_order s @ [rawNameAt s],
        s_indexOf := (s_indexOf s)(rawNameAt s \<mapsto> idx)\<rparr>" by simp
    have "registry_ok s'"
      unfolding s' idx_def
      by (rule registry_new [OF reg None]) (simp_all add: pos)
    then show ?thesis
      using n ed ok tk [of idx] chn [of idx] le by (simp add: scanInv_def s' pos)
  next
    case (Some idx)
    from consumePlaceholder_known [OF p v Some, of f] r
    have s': "s' = s\<lparr>s_i := nameEnd s, s_tokens := s_tokens s @ [newToken s idx],
        s_edits := s_edits s @ [tok_edit f (newToken s idx)]\<rparr>" by simp
    have "registry_ok s'"
      unfolding s' by (rule registry_known [OF reg Some]) (simp_all add: pos)
    then show ?thesis
      using n ed ok tk [of idx] chn [of idx] le by (simp add: scanInv_def s' pos)
  qed
qed

lemma scanInv_step:
  assumes inv: "scanInv U f s" and a: "s_i s < s_n s" and st: "step U f s = (s', None)"
  shows "scanInv U f s' \<and> s_i s < s_i s' \<and> s_src s' = s_src s \<and>
         (\<exists>new. s_tokens s' = s_tokens s @ new \<and> chain (s_i s) new (s_i s'))"
proof (cases "atPlaceholder s")
  case True
  with st have r: "consumePlaceholder U f s = (s', None)" by (simp add: step_placeholder)
  from scanInv_placeholder [OF inv True r] obtain t where
    i': "scanInv U f s'" and t: "s_tokens s' = s_tokens s @ [t]" "Start t = s_i s" "End t = s_i s'"
    by blast
  from consumePlaceholder_progress [OF r] have lt: "s_i s < s_i s'" .
  have "chain (s_i s) [t] (s_i s')" using t lt by simp
  with i' t lt consumePlaceholder_frame [OF r] show ?thesis by blast
next
  case False
  from inv have n: "s_n s = length (s_src s)" by (simp add: scanInv_def)
  from step_skip [OF a n False, of U f] st have m: "moves s s'" by simp
  then have e: "s' = cursor_to s (s_i s')" and lt: "s_i s < s_i s'" by (simp_all add: moves_def)
  have tk: "s_tokens s' = s_tokens s @ []" by (subst e) simp
  have sr: "s_src s' = s_src s" by (subst e) simp
  have "chain (s_i s) [] (s_i s')" using lt by simp
  with scanInv_moves [OF inv m] lt tk sr show ?thesis by blast
qed

lemma reaches_inv:
  "reaches U f s s' \<Longrightarrow> scanInv U f s \<Longrightarrow>
   scanInv U f s' \<and> s_src s' = s_src s \<and>
   (\<exists>new. s_tokens s' = s_tokens s @ new \<and> chain (s_i s) new (s_i s'))"
proof (induction rule: reaches.induct)
  case reaches_refl
  then show ?case by simp
next
  case (reaches_step s1 s2)
  from reaches_step.IH [OF reaches_step.prems] obtain new1 where
    i1: "scanInv U f s1" and sr1: "s_src s1 = s_src s"
    and t1: "s_tokens s1 = s_tokens s @ new1" and c1: "chain (s_i s) new1 (s_i s1)"
    by blast
  from scanInv_step [OF i1 reaches_step.hyps(2) reaches_step.hyps(3)] obtain new2 where
    i2: "scanInv U f s2" and sr2: "s_src s2 = s_src s1"
    and t2: "s_tokens s2 = s_tokens s1 @ new2" and c2: "chain (s_i s1) new2 (s_i s2)"
    by blast
  have "chain (s_i s) (new1 @ new2) (s_i s2)"
    unfolding chain_append using c1 c2 by blast
  moreover have "s_tokens s2 = s_tokens s @ (new1 @ new2)" using t1 t2 by simp
  ultimately show ?case using i2 sr1 sr2 by (metis)
qed

lemma reaches_trans:
  "reaches U f s1 s2 \<Longrightarrow> reaches U f s0 s1 \<Longrightarrow> reaches U f s0 s2"
  by (induction rule: reaches.induct) (auto intro: reaches.intros)

text \<open>How the scan ends: at the end of the text, or at a placeholder with an invalid name.\<close>

lemma scan_reaches: "reaches U f s s' \<Longrightarrow> scan U f s = scan U f s'"
proof (induction rule: reaches.induct)
  case reaches_refl
  show ?case by simp
next
  case (reaches_step s1 s2)
  have "scan U f s1 = scan U f s2"
    using reaches_step.hyps(2,3) by (subst scan.simps) simp
  with reaches_step.IH show ?case by simp
qed

lemma scan_end:
  "scan U f s = (sf, e) \<Longrightarrow>
   (e = None \<and> reaches U f s sf \<and> \<not> s_i sf < s_n sf) \<or>
   (\<exists>s1. e \<noteq> None \<and> reaches U f s s1 \<and> s_i s1 < s_n s1 \<and> step U f s1 = (sf, e))"
proof (induction U f s rule: scan.induct)
  case (1 U f s)
  show ?case
  proof (cases "s_i s < s_n s")
    case False
    with "1.prems" have "sf = s" "e = None" by (simp_all add: scan.simps [of U f s])
    with False show ?thesis by (auto intro: reaches.intros)
  next
    case True
    obtain s' e' where st: "step U f s = (s', e')" by (cases "step U f s")
    show ?thesis
    proof (cases e')
      case (Some err)
      with st True "1.prems" have "sf = s'" "e = Some err"
        by (simp_all add: scan.simps [of U f s])
      with st True Some show ?thesis by (auto intro: reaches.intros)
    next
      case None
      with st True "1.prems" have sc: "scan U f s' = (sf, e)"
        by (simp add: scan.simps [of U f s])
      have r1: "reaches U f s s'"
        using st None True by (auto intro: reaches.intros)
      from "1.IH" [OF True st [symmetric] None sc]
      show ?thesis
        using r1 by (meson reaches_trans)
    qed
  qed
qed


subsection \<open>The parameters derived from the registry\<close>

lemma orderedTokens_loop_length:
  "length (orderedTokens_loop order ts ordered) = length ordered"
  by (induction ts arbitrary: ordered) auto

text \<open>\<open>fills order k t\<close>: token \<open>t\<close> belongs into slot \<open>k\<close> of the ordered list.\<close>

definition fills :: "string list \<Rightarrow> nat \<Rightarrow> QueryToken \<Rightarrow> bool" where
  "fills order k t \<longleftrightarrow> Name t = order ! k \<and> Index t = k + 1"

lemma orderedTokens_loop_slot:
  "k < length ordered \<Longrightarrow> length ordered = length order \<Longrightarrow>
   fills order k (ordered ! k) \<or> (\<exists>t \<in> set ts. fills order k t) \<Longrightarrow>
   fills order k (orderedTokens_loop order ts ordered ! k)"
proof (induction ts arbitrary: ordered)
  case Nil
  then show ?case by simp
next
  case (Cons p ps)
  define ordered' where "ordered' =
       (if Index p < 1 then ordered
        else if Index p > length order then ordered
        else if order ! (Index p - 1) \<noteq> Name p then ordered
        else ordered[Index p - 1 := p])"
  have len: "length ordered' = length ordered" by (simp add: ordered'_def)
  have step: "fills order k (ordered' ! k) \<or> (\<exists>t \<in> set ps. fills order k t)"
  proof (cases "\<exists>t \<in> set ps. fills order k t")
    case True
    then show ?thesis by simp
  next
    case False
    with Cons.prems(3) have alt: "fills order k (ordered ! k) \<or> fills order k p" by auto
    have "fills order k (ordered' ! k)"
    proof (cases "fills order k p")
      case True
      then have "Index p = k + 1" "Name p = order ! k" by (simp_all add: fills_def)
      with Cons.prems(1,2) have "ordered' = ordered[k := p]" by (simp add: ordered'_def)
      with Cons.prems(1) True show ?thesis by simp
    next
      case False
      with alt have old: "fills order k (ordered ! k)" by simp
      show ?thesis
      proof (cases "ordered' = ordered")
        case True
        with old show ?thesis by simp
      next
        case F: False
        then have upd: "ordered' = ordered[Index p - 1 := p]" and ge: "\<not> Index p < 1"
          and nm: "order ! (Index p - 1) = Name p"
          by (auto simp: ordered'_def split: if_splits)
        have "Index p - 1 \<noteq> k"
        proof
          assume "Index p - 1 = k"
          with ge nm have "fills order k p" by (auto simp: fills_def)
          with False show False by simp
        qed
        with upd old show ?thesis by simp
      qed
    qed
    then show ?thesis by simp
  qed
  have "orderedTokens_loop order (p # ps) ordered = orderedTokens_loop order ps ordered'"
    by (simp add: ordered'_def)
  moreover have "fills order k (orderedTokens_loop order ps ordered' ! k)"
    using Cons.IH [of ordered'] Cons.prems(1,2) len step by simp
  ultimately show ?case by simp
qed

lemma registry_slot:
  assumes r: "registry_ok s" and k: "k < length (s_order s)"
  shows "\<exists>t \<in> set (s_tokens s). fills (s_order s) k t"
proof -
  from r have o: "first_occ (map Name (s_tokens s)) = s_order s"
    and a3: "s_indexOf s (s_order s ! k) = Some (k + 1)"
    and a4: "\<And>x. x \<in> set (s_tokens s) \<Longrightarrow> s_indexOf s (Name x) = Some (Index x)"
    using k by (simp_all add: registry_ok_def)
  have "s_order s ! k \<in> set (s_order s)" using k by simp
  then have "s_order s ! k \<in> set (map Name (s_tokens s))"
    using o by (metis set_first_occ)
  then obtain t where t: "t \<in> set (s_tokens s)" "Name t = s_order s ! k" by auto
  from a4 [OF t(1)] a3 t(2) have "Index t = k + 1" by simp
  with t show ?thesis by (auto simp: fills_def)
qed

lemma orderedTokens_nth:
  assumes r: "registry_ok s" and k: "k < length (s_order s)"
  shows "fills (s_order s) k (orderedTokens s ! k)"
  unfolding orderedTokens_def
  using registry_slot [OF r k] k
  by (intro orderedTokens_loop_slot) simp_all

lemma orderedTokens_length: "length (orderedTokens s) = length (s_order s)"
  by (simp add: orderedTokens_def orderedTokens_loop_length)

text \<open>
  The indices of the ordered tokens are \<open>1, 2, ...\<close>: pairwise different and already in
  order, so that any sort by index, stable or not, leaves the list as it is.
\<close>

lemma orderedTokens_indices:
  "registry_ok s \<Longrightarrow> map Index (orderedTokens s) = [1 ..< length (s_order s) + 1]"
proof (rule nth_equalityI)
  assume r: "registry_ok s"
  show "length (map Index (orderedTokens s)) = length [1 ..< length (s_order s) + 1]"
    by (simp del: upt_Suc add: orderedTokens_length)
  fix k assume "k < length (map Index (orderedTokens s))"
  then have k: "k < length (s_order s)" by (simp add: orderedTokens_length)
  from orderedTokens_nth [OF r k] k
  show "map Index (orderedTokens s) ! k = [1 ..< length (s_order s) + 1] ! k"
    by (simp del: upt_Suc add: fills_def orderedTokens_length)
qed

lemma Parameters_orderedTokens:
  assumes r: "registry_ok s"
  shows "Parameters (orderedTokens s) =
         map (\<lambda>k. \<lparr>PName = s_order s ! k, PIndex = k + 1\<rparr>) [0 ..< length (s_order s)]"
proof -
  have "sorted (map Index (orderedTokens s))"
    unfolding orderedTokens_indices [OF r] by (rule sorted_upt)
  then have srt: "sort_key Index (orderedTokens s) = orderedTokens s"
    by (rule sort_key_id_if_sorted)
  show ?thesis
    unfolding Parameters_def srt
  proof (rule nth_equalityI)
    show "length (map (\<lambda>sp. NewParameter (Name sp) (Index sp)) (orderedTokens s)) =
          length (map (\<lambda>k. \<lparr>PName = s_order s ! k, PIndex = k + 1\<rparr>) [0 ..< length (s_order s)])"
      by (simp add: orderedTokens_length)
    fix k assume "k < length (map (\<lambda>sp. NewParameter (Name sp) (Index sp)) (orderedTokens s))"
    then have k: "k < length (s_order s)" by (simp add: orderedTokens_length)
    from orderedTokens_nth [OF r k] k
    show "map (\<lambda>sp. NewParameter (Name sp) (Index sp)) (orderedTokens s) ! k =
          map (\<lambda>k. \<lparr>PName = s_order s ! k, PIndex = k + 1\<rparr>) [0 ..< length (s_order s)] ! k"
      by (simp add: fills_def orderedTokens_length NewParameter_def)
  qed
qed

subsection \<open>The result of a successful parse, in terms of the final scan state\<close>

lemma buildSQL_no_edits: "s_edits s = [] \<Longrightarrow> buildSQL s = s_src s"
  by (simp add: buildSQL_def)

lemma ParseSQL_ok:
  assumes p: "ParseSQL U src (Some f) = (ps, None)"
  shows "\<exists>sf. scan U f (newParseState src) = (sf, None) \<and>
              reaches U f (newParseState src) sf \<and> scanInv U f sf \<and>
              s_src sf = src \<and> s_i sf = length src \<and>
              occurrences ps = s_tokens sf \<and>
              parameters ps =
                map (\<lambda>k. \<lparr>PName = s_order sf ! k, PIndex = k + 1\<rparr>) [0 ..< length (s_order sf)] \<and>
              SQL ps = buildSQL sf"
proof -
  obtain sf e where sc: "scan U f (newParseState src) = (sf, e)"
    by (cases "scan U f (newParseState src)")
  have e: "e = None"
  proof (cases e)
    case None then show ?thesis .
  next
    case (Some err)
    with p sc show ?thesis by (simp add: ParseSQL_def)
  qed
  from scan_end [OF sc] e have re: "reaches U f (newParseState src) sf"
    and fin: "\<not> s_i sf < s_n sf" by auto
  from reaches_inv [OF re scanInv_init] have inv: "scanInv U f sf"
    and sr: "s_src sf = src" by (simp_all add: newParseState_def)
  from inv have n: "s_n sf = length (s_src sf)" and le: "s_i sf \<le> s_n sf"
    and ed: "s_edits sf = map (tok_edit f) (s_tokens sf)" and reg: "registry_ok sf"
    by (simp_all add: scanInv_def)
  have i: "s_i sf = length src" using fin le n sr by simp
  have occ: "occurrences ps = s_tokens sf"
    using p sc e by (auto simp: ParseSQL_def NewParsedSQLWithOccurrences_def split: if_splits)
  have par: "parameters ps =
      map (\<lambda>k. \<lparr>PName = s_order sf ! k, PIndex = k + 1\<rparr>) [0 ..< length (s_order sf)]"
  proof (cases "s_edits sf = []")
    case True
    with ed have tk: "s_tokens sf = []" by simp
    with reg have "s_order sf = []" by (simp add: registry_ok_def first_occ_def)
    moreover have "parameters ps = []"
      using p sc e True tk
      by (auto simp: ParseSQL_def NewParsedSQLWithOccurrences_def Parameters_def)
    ultimately show ?thesis by simp
  next
    case False
    then have "parameters ps = Parameters (orderedTokens sf)"
      using p sc e by (auto simp: ParseSQL_def NewParsedSQLWithOccurrences_def)
    then show ?thesis by (simp add: Parameters_orderedTokens [OF reg])
  qed
  have sql: "SQL ps = buildSQL sf"
    using p sc e buildSQL_no_edits [of sf]
    by (auto simp: ParseSQL_def NewParsedSQLWithOccurrences_def split: if_splits)
  from sc e re inv sr i occ par sql show ?thesis by blast
qed


lemma token_index:
  assumes r: "registry_ok s" and t: "t \<in> set (s_tokens s)" and k: "k < length (s_order s)"
    and nm: "s_order s ! k = Name t"
  shows "Index t = k + 1"
proof -
  from r k have "s_indexOf s (s_order s ! k) = Some (k + 1)" by (simp add: registry_ok_def)
  moreover from r t have "s_indexOf s (Name t) = Some (Index t)" by (simp add: registry_ok_def)
  ultimately show ?thesis using nm by simp
qed

lemma isValidIdentifierChar_ascii: "isValidIdentifierChar c \<Longrightarrow> (of_char c :: nat) < 128"
  by (auto simp: isValidIdentifierChar_def isValidIdentifierStart_def less_eq_char_def)

lemma scan_fuel_enough: "s_n s - s_i s \<le> k \<Longrightarrow> scan_fuel k U f s = Some (scan U f s)"
proof (induction k arbitrary: s)
  case 0
  then show ?case by (simp add: scan.simps [of U f s])
next
  case (Suc k)
  show ?case
  proof (cases "s_i s < s_n s")
    case False
    then show ?thesis by (simp add: scan.simps [of U f s])
  next
    case True
    obtain s' e where st: "step U f s = (s', e)" by (cases "step U f s")
    from step_advances [OF True, of U f] st have "advances s s'" by simp
    with Suc.prems True have "s_n s' - s_i s' \<le> k" by (auto simp: advances_def)
    from Suc.IH [OF this] st True show ?thesis
      by (cases e) (simp_all add: scan.simps [of U f s])
  qed
qed

lemma step_bound:
  assumes a: "s_i s < s_n s" and n: "s_n s = length (s_src s)"
  shows "s_i (fst (step U f s)) \<le> s_n s"
proof (cases "atPlaceholder s")
  case True
  obtain s' e where r: "consumePlaceholder U f s = (s', e)"
    by (cases "consumePlaceholder U f s")
  from consumePlaceholder_bound [OF r a] r True show ?thesis
    by (simp add: step_placeholder)
next
  case False
  from step_skip [OF a n False, of U f] show ?thesis by (simp add: moves_def)
qed

lemma ParseSQL_invalid:
  assumes re: "reaches U f (newParseState src) s" and p: "atPlaceholder s"
    and v: "\<not> isValidName U (rawNameAt s)"
  shows "ParseSQL U src (Some f) =
         (zeroParsedSQL, Some (ErrInvalidPlaceholderName (rawNameAt s) (s_i s)))"
proof -
  from p have a: "s_i s < s_n s" by (simp add: atPlaceholder_def)
  have st: "step U f s =
      (s\<lparr>s_i := s_i s + 1\<rparr>, Some (ErrInvalidPlaceholderName (rawNameAt s) (s_i s)))"
    using consumePlaceholder_invalid [OF p v, of f] p by (simp add: step_placeholder)
  have "scan U f s =
      (s\<lparr>s_i := s_i s + 1\<rparr>, Some (ErrInvalidPlaceholderName (rawNameAt s) (s_i s)))"
    using a st by (subst scan.simps) simp
  with scan_reaches [OF re] show ?thesis
    by (simp add: ParseSQL_def)
qed

subsection \<open>Names that end in selector punctuation\<close>

lemma utf8At_ascii: "(of_char (s ! k) :: nat) < 128 \<Longrightarrow> utf8At s k = (of_char (s ! k), 1)"
  by (simp add: utf8At_def)

lemma readIdent_loop_barrier:
  "\<forall>k < length s. (of_char (s ! k) :: nat) < 128 \<Longrightarrow> p < length s \<Longrightarrow>
   \<not> isLetterDigitOrUnderscore U (of_char (s ! p)) \<Longrightarrow> i \<le> p \<Longrightarrow>
   readIdent_loop U s i \<le> p"
proof (induction U s i rule: readIdent_loop.induct)
  case (1 U s i)
  from "1.prems" have il: "i < length s" by simp
  with "1.prems"(1) have u: "utf8At s i = (of_char (s ! i), 1)" by (simp add: utf8At_ascii)
  show ?case
  proof (cases "isLetterDigitOrUnderscore U (of_char (s ! i))")
    case True
    with "1.prems"(3) have "i \<noteq> p" by auto
    with "1.prems"(4) have "i + 1 \<le> p" by simp
    from "1.IH" [OF il u [symmetric] True "1.prems"(1,2,3) this]
    show ?thesis using il u True by (simp add: readIdent_loop.simps [of U s i])
  next
    case False
    then show ?thesis using il u "1.prems"(4) by (simp add: readIdent_loop.simps [of U s i])
  qed
qed

lemma readDigits_loop_barrier:
  "p < length s \<Longrightarrow> s ! p < CHR ''0'' \<or> s ! p > CHR ''9'' \<Longrightarrow> i \<le> p \<Longrightarrow>
   readDigits_loop s i \<le> p"
proof (induction s i rule: readDigits_loop.induct)
  case (1 s i)
  from "1.prems" have il: "i < length s" by simp
  show ?case
  proof (cases "s ! i < CHR ''0'' \<or> s ! i > CHR ''9''")
    case True
    then show ?thesis using il "1.prems"(3) by (simp add: readDigits_loop.simps [of s i])
  next
    case False
    with "1.prems"(2) have "i \<noteq> p" by auto
    with "1.prems"(3) have "i + 1 \<le> p" by simp
    from "1.IH" [OF il False "1.prems"(1,2) this]
    show ?thesis using il False by (simp add: readDigits_loop.simps [of s i])
  qed
qed

lemma stopper_classes:
  assumes "c = CHR ''.'' \<or> c = CHR '']''"
  shows "\<not> isLetterDigitOrUnderscore U (of_char c)" and "\<not> isLetterOrUnderscore U (of_char c)"
    and "c < CHR ''0'' \<or> c > CHR ''9''"
  using assms
  by (auto simp: isLetterDigitOrUnderscore_def isLetterOrUnderscore_def unicode_IsLetter_def
                 unicode_IsDigit_def latin1_letter_def)

lemma readIdent_ok:
  assumes r: "readIdent U s j = (True, i1)" and a: "(of_char (s ! j) :: nat) < 128"
  shows "j < length s \<and> isLetterOrUnderscore U (of_char (s ! j)) \<and>
         i1 = readIdent_loop U s (j + 1)"
  using r utf8At_ascii [OF a] by (auto simp: readIdent_def split: if_splits)

lemma isValidName_loop_trailing:
  "\<forall>k < length s. (of_char (s ! k) :: nat) < 128 \<Longrightarrow> p + 1 = length s \<Longrightarrow>
   s ! p = CHR ''.'' \<or> (s ! p = CHR '']'' \<and> CHR ''['' \<notin> set s) \<Longrightarrow> i \<le> p \<Longrightarrow>
   \<not> isValidName_loop U s i"
proof (induction U s i rule: isValidName_loop.induct)
  case (1 U s i)
  note ascii = "1.prems"(1) and len = "1.prems"(2) and stp = "1.prems"(3) and ip = "1.prems"(4)
  from ip len have il: "i < length s" and pl: "p < length s" by simp_all
  from stp have sc: "s ! p = CHR ''.'' \<or> s ! p = CHR '']''" by auto
  note cls = stopper_classes [OF sc]
  show ?case
  proof (cases "s ! i = CHR ''.''")
    case dot: True
    obtain ok i1 where r: "readIdent U s (i + 1) = (ok, i1)" by (cases "readIdent U s (i + 1)")
    show ?thesis
    proof (cases ok)
      case False
      with r dot il show ?thesis by (simp add: isValidName_loop.simps [of U s i])
    next
      case True
      have lt: "i + 1 < length s" using r True by (auto simp: readIdent_def split: if_splits)
      from readIdent_ok [OF r [unfolded True eqTrueI [OF True]]] ascii lt
      have lou: "isLetterOrUnderscore U (of_char (s ! (i + 1)))"
        and i1: "i1 = readIdent_loop U s (i + 1 + 1)" by simp_all
      from lou cls(2) have "i + 1 \<noteq> p" by auto
      with lt len have "i + 1 + 1 \<le> p" by simp
      from readIdent_loop_barrier [OF ascii pl cls(1) this] i1 have "i1 \<le> p" by simp
      from "1.IH"(1) [OF il dot r [symmetric] _ ascii len stp this] True
      have "\<not> isValidName_loop U s i1" by simp
      with r dot il True show ?thesis by (simp add: isValidName_loop.simps [of U s i])
    qed
  next
    case nodot: False
    show ?thesis
    proof (cases "s ! i = CHR ''[''")
      case False
      with nodot il show ?thesis by (simp add: isValidName_loop.simps [of U s i])
    next
      case br: True
      with il have "CHR ''['' \<in> set s" by (metis nth_mem)
      with stp have pdot: "s ! p = CHR ''.''" by auto
      obtain ok i1 where r: "readDigits s (i + 1) = (ok, i1)" by (cases "readDigits s (i + 1)")
      show ?thesis
      proof (cases "ok \<and> \<not> (i1 \<ge> length s \<or> s ! i1 \<noteq> CHR '']'')")
        case False
        with r nodot br il show ?thesis
          by (auto simp: isValidName_loop.simps [of U s i])
      next
        case True
        then have ok: ok and i1l: "i1 < length s" and cl: "s ! i1 = CHR '']''" by auto
        from pdot cl have "i1 \<noteq> p" by auto
        with i1l len have "i1 + 1 \<le> p" by simp
        from "1.IH"(2) [OF il nodot br r [symmetric] _ _ ascii len stp this] True
        have "\<not> isValidName_loop U s (i1 + 1)" by simp
        with r nodot br il True show ?thesis
          by (simp add: isValidName_loop.simps [of U s i])
      qed
    qed
  qed
qed

text \<open>
  A name of name bytes that ends in a dot, or that ends in a closing bracket and has no
  opening bracket, is not a valid name.
\<close>

lemma isValidName_trailing:
  assumes ch: "\<forall>c \<in> set nm. isValidIdentifierChar c" and ne: "nm \<noteq> []"
    and stp: "last nm = CHR ''.'' \<or> (last nm = CHR '']'' \<and> CHR ''['' \<notin> set nm)"
  shows "\<not> isValidName U nm"
proof -
  define p where "p = length nm - 1"
  from ne have len: "p + 1 = length nm" by (simp add: p_def)
  from ne have lst: "last nm = nm ! p" by (simp add: last_conv_nth p_def)
  have ascii: "\<forall>k < length nm. (of_char (nm ! k) :: nat) < 128"
    using ch isValidIdentifierChar_ascii by simp
  from stp lst have stp': "nm ! p = CHR ''.'' \<or> (nm ! p = CHR '']'' \<and> CHR ''['' \<notin> set nm)"
    by simp
  then have sc: "nm ! p = CHR ''.'' \<or> nm ! p = CHR '']''" by auto
  note cls = stopper_classes [OF sc]
  obtain ok i where r: "readIdent U nm 0 = (ok, i)" by (cases "readIdent U nm 0")
  show ?thesis
  proof (cases ok)
    case False
    with r ne show ?thesis by (simp add: isValidName_def)
  next
    case True
    from ne ascii have a0: "(of_char (nm ! 0) :: nat) < 128" by simp
    from readIdent_ok [OF r [unfolded eqTrueI [OF True]] a0]
    have lou: "isLetterOrUnderscore U (of_char (nm ! 0))" and i: "i = readIdent_loop U nm 1"
      by simp_all
    have "p \<noteq> 0"
    proof
      assume "p = 0"
      with lou cls(2) [of U] show False by simp
    qed
    then have "1 \<le> p" by simp
    from readIdent_loop_barrier [OF ascii _ cls(1) this] len i have "i \<le> p" by simp
    from isValidName_loop_trailing [OF ascii len stp' this]
    show ?thesis using r ne True by (simp add: isValidName_def)
  qed
qed

lemma rawNameAt_chars:
  assumes n: "s_n s = length (s_src s)" and p: "atPlaceholder s"
  shows "(\<forall>c \<in> set (rawNameAt s). isValidIdentifierChar c) \<and> rawNameAt s \<noteq> []"
proof -
  from p have lt: "s_i s + 1 < s_n s"
    and st: "isValidIdentifierStart (s_src s ! (s_i s + 1))"
    by (simp_all add: atPlaceholder_def)
  from st have ch: "isValidIdentifierChar (s_src s ! (s_i s + 1))"
    by (simp add: isValidIdentifierChar_def)
  have gt: "s_i s + 1 < nameEnd s"
    unfolding nameEnd_def by (rule name_loop_first [OF lt ch])
  have le: "nameEnd s \<le> length (s_src s)"
    unfolding nameEnd_def using name_loop_le [of "s_i s + 1" "s_n s" "s_src s"] lt n by simp
  have chars: "\<forall>c \<in> set (rawNameAt s). isValidIdentifierChar c"
  proof
    fix c assume "c \<in> set (rawNameAt s)"
    then have "c \<in> set (slice (s_src s) (s_i s + 1) (nameEnd s))"
      by (simp add: rawNameAt_def nameEnd_def)
    from set_slice [OF this le] obtain k where
      k: "s_i s + 1 \<le> k" "k < nameEnd s" "c = s_src s ! k" by blast
    from name_loop_chars [OF k(1) k(2) [unfolded nameEnd_def]] k(3)
    show "isValidIdentifierChar c" by simp
  qed
  have "length (rawNameAt s) = nameEnd s - (s_i s + 1)"
    using le by (simp add: rawNameAt_def nameEnd_def slice_def)
  with gt have "rawNameAt s \<noteq> []" by auto
  with chars show ?thesis by simp
qed


section \<open>The format function is required\<close>

text \<open>
  C9. For every input, \<open>ParseSQL\<close> called with a nil format function fails with
  \<open>ErrFormatParamFuncRequired\<close> and returns the zero \<open>ParsedSQL\<close>: no rewritten text, no
  parameters, no occurrences. The result does not depend on the text, which is never
  scanned.
\<close>

theorem ParseSQL_nil_formatFunc:
  "ParseSQL U sqlText None = (zeroParsedSQL, Some ErrFormatParamFuncRequired) \<and>
   zeroParsedSQL = \<lparr>SQL = [], parameters = [], occurrences = []\<rparr>"
  by (simp add: ParseSQL_def zeroParsedSQL_def)

section \<open>The single-quoted skipper and doubled quotes\<close>

text \<open>
  C7. The skipper tests \<open>s.i <= s.n\<close> after the closing quote, which always holds, so it
  returns at the first quote it meets: entered at offset 0 of \<open>'a''b'\<close> it stops at
  offset 3, between the two quotes of the doubled pair, and not at offset 6 after the
  literal. The dispatcher then enters the skipper again at the second quote, so that
  the \<open>:x\<close> of \<open>'a'':x''b'\<close> is still skipped and the text comes back unchanged.
\<close>

theorem consumeSingleQuoted_stops_at_doubled_quote:
  "s_i (consumeSingleQuoted (newParseState [squote, CHR ''a'', squote, squote, CHR ''b'', squote])) = 3 \<and>
   ParseSQL U [squote, CHR ''a'', squote, squote, CHR '':'', CHR ''x'', squote, squote,
               CHR ''b'', squote] (Some f) =
     (\<lparr>SQL = [squote, CHR ''a'', squote, squote, CHR '':'', CHR ''x'', squote, squote,
              CHR ''b'', squote],
       parameters = [], occurrences = []\<rparr>, None)"
  by (simp add: loop_simps def_simps)

section \<open>Identity on a text without placeholders\<close>

text \<open>
  C3. When the scan of a text ends without error and has produced no edit span,
  \<open>ParseSQL\<close> returns the text itself as rewritten SQL, byte for byte, with no
  parameters (and no occurrences).
\<close>

theorem no_edits_identity:
  assumes sc: "scan U f (newParseState src) = (sf, None)" and ne: "s_edits sf = []"
  shows "ParseSQL U src (Some f) = (\<lparr>SQL = src, parameters = [], occurrences = []\<rparr>, None)"
proof -
  from scan_end [OF sc] have re: "reaches U f (newParseState src) sf" by simp
  from reaches_inv [OF re scanInv_init] have inv: "scanInv U f sf"
    and sr: "s_src sf = src" by (simp_all add: newParseState_def)
  from inv ne have tk: "s_tokens sf = []" by (simp add: scanInv_def)
  show ?thesis
    using sc ne tk sr
    by (simp add: ParseSQL_def NewParsedSQLWithOccurrences_def Parameters_def)
qed

theorem no_edits_identity_witness:
  "scan latin1_only mysqlFormat (newParseState ''a::b -- :c'') =
     (newParseState ''a::b -- :c'' \<lparr>s_i := 10\<rparr>, None) \<and>
   s_edits (newParseState ''a::b -- :c'' \<lparr>s_i := 10\<rparr>) = [] \<and>
   ParseSQL latin1_only ''a::b -- :c'' (Some mysqlFormat) =
     (\<lparr>SQL = ''a::b -- :c'', parameters = [], occurrences = []\<rparr>, None)"
proof -
  have sc: "scan latin1_only mysqlFormat (newParseState ''a::b -- :c'') =
     (newParseState ''a::b -- :c'' \<lparr>s_i := 10\<rparr>, None)"
    by (simp add: loop_simps def_simps)
  have ne: "s_edits (newParseState ''a::b -- :c'' \<lparr>s_i := 10\<rparr>) = []"
    by (simp add: newParseState_def)
  from no_edits_identity [OF sc ne] sc ne show ?thesis by simp
qed

section \<open>Deduplication and order of the parameters\<close>

text \<open>
  C5. When a parse succeeds and the names of its occurrences are \<open>x, x\<close> (the same
  placeholder name twice), the parameters are the single parameter \<open>x\<close> with index 1,
  there are two occurrences, both with index 1, and the two edit spans of the scan both
  carry the replacement text \<open>f 1\<close>.
\<close>

theorem repeated_name_one_parameter:
  assumes p: "ParseSQL U src (Some f) = (ps, None)"
    and nms: "map Name (occurrences ps) = [x, x]"
  shows "parameters ps = [\<lparr>PName = x, PIndex = 1\<rparr>] \<and> length (parameters ps) = 1 \<and>
         length (occurrences ps) = 2 \<and> map Index (occurrences ps) = [1, 1] \<and>
         map e_repl (s_edits (fst (scan U f (newParseState src)))) = [f 1, f 1]"
proof -
  from ParseSQL_ok [OF p] obtain sf where
    sc: "scan U f (newParseState src) = (sf, None)" and inv: "scanInv U f sf"
    and occ: "occurrences ps = s_tokens sf"
    and par: "parameters ps =
        map (\<lambda>k. \<lparr>PName = s_order sf ! k, PIndex = k + 1\<rparr>) [0 ..< length (s_order sf)]"
    by blast
  from inv have ed: "s_edits sf = map (tok_edit f) (s_tokens sf)" and reg: "registry_ok sf"
    by (simp_all add: scanInv_def)
  from nms occ obtain t1 t2 where tk: "s_tokens sf = [t1, t2]" and n1: "Name t1 = x"
    and n2: "Name t2 = x" by auto
  from reg tk n1 n2 have ord: "s_order sf = [x]"
    by (simp add: registry_ok_def first_occ_def)
  have i1: "Index t1 = 1" using token_index [OF reg, of t1 0] tk ord n1 by simp
  have i2: "Index t2 = 1" using token_index [OF reg, of t2 0] tk ord n2 by simp
  show ?thesis
    using par ord occ tk i1 i2 ed sc by (simp add: tok_edit_def)
qed

theorem repeated_name_one_parameter_witness:
  "ParseSQL latin1_only ''a = :x OR b = :x'' (Some postgresFormat) =
     (\<lparr>SQL = ''a = $1 OR b = $1'', parameters = [\<lparr>PName = ''x'', PIndex = 1\<rparr>],
       occurrences =
         [\<lparr>Name = ''x'', Index = 1, Start = 4, End = 6, Raw = '':x''\<rparr>,
          \<lparr>Name = ''x'', Index = 1, Start = 14, End = 16, Raw = '':x''\<rparr>]\<rparr>, None) \<and>
   map e_repl (s_edits (fst (scan latin1_only postgresFormat (newParseState ''a = :x OR b = :x'')))) =
     [''$1'', ''$1'']"
proof -
  define ps where "ps = \<lparr>SQL = ''a = $1 OR b = $1'', parameters = [\<lparr>PName = ''x'', PIndex = 1\<rparr>],
       occurrences =
         [\<lparr>Name = ''x'', Index = 1, Start = 4, End = 6, Raw = '':x''\<rparr>,
          \<lparr>Name = ''x'', Index = 1, Start = 14, End = 16, Raw = '':x''\<rparr>]\<rparr>"
  have p: "ParseSQL latin1_only ''a = :x OR b = :x'' (Some postgresFormat) = (ps, None)"
    unfolding ps_def by (simp add: loop_simps def_simps eval_nat_numeral)
  have nms: "map Name (occurrences ps) = [''x'', ''x'']"
    by (simp add: ps_def)
  have f1: "postgresFormat 1 = ''$1''"
    by (simp add: postgresFormat_def itoa.simps)
  from repeated_name_one_parameter [OF p nms] p f1 show ?thesis
    by (simp add: ps_def)
qed

text \<open>
  C6. When a parse succeeds and the names of its occurrences are \<open>a, b, a, c\<close> in source
  order, with \<open>a\<close>, \<open>b\<close>, \<open>c\<close> different names, the parameters are \<open>a, b, c\<close> with the indices
  1, 2, 3, and the occurrences carry the indices 1, 2, 1, 3, at strictly increasing
  offsets.
\<close>

theorem first_occurrence_order:
  assumes p: "ParseSQL U src (Some f) = (ps, None)"
    and nms: "map Name (occurrences ps) = [a, b, a, c]"
    and d: "a \<noteq> b" "a \<noteq> c" "b \<noteq> c"
  shows "parameters ps =
           [\<lparr>PName = a, PIndex = 1\<rparr>, \<lparr>PName = b, PIndex = 2\<rparr>, \<lparr>PName = c, PIndex = 3\<rparr>] \<and>
         map (\<lambda>t. (Name t, Index t)) (occurrences ps) = [(a, 1), (b, 2), (a, 1), (c, 3)] \<and>
         sorted_wrt (<) (map Start (occurrences ps))"
proof -
  from ParseSQL_ok [OF p] obtain sf where
    inv: "scanInv U f sf" and occ: "occurrences ps = s_tokens sf"
    and par: "parameters ps =
        map (\<lambda>k. \<lparr>PName = s_order sf ! k, PIndex = k + 1\<rparr>) [0 ..< length (s_order sf)]"
    by blast
  from inv have reg: "registry_ok sf" and ch: "chain 0 (s_tokens sf) (s_i sf)"
    by (simp_all add: scanInv_def)
  from nms occ obtain t1 t2 t3 t4 where tk: "s_tokens sf = [t1, t2, t3, t4]"
    and n: "Name t1 = a" "Name t2 = b" "Name t3 = a" "Name t4 = c" by auto
  from reg tk n d have ord: "s_order sf = [a, b, c]"
    by (auto simp: registry_ok_def first_occ_def)
  have i1: "Index t1 = 1" using token_index [OF reg, of t1 0] tk ord n by simp
  have i2: "Index t2 = 2" using token_index [OF reg, of t2 1] tk ord n by simp
  have i3: "Index t3 = 1" using token_index [OF reg, of t3 0] tk ord n by simp
  have i4: "Index t4 = 3" using token_index [OF reg, of t4 2] tk ord n by simp
  have pars: "parameters ps =
           [\<lparr>PName = a, PIndex = 1\<rparr>, \<lparr>PName = b, PIndex = 2\<rparr>, \<lparr>PName = c, PIndex = 3\<rparr>]"
    using par ord by (simp add: upt_rec)
  have srt: "sorted_wrt (<) (map Start (occurrences ps))"
    using ch occ tk by auto
  show ?thesis
    using pars srt occ tk n i1 i2 i3 i4 by simp
qed

theorem first_occurrence_order_witness:
  "ParseSQL latin1_only '':a :b :a :c'' (Some postgresFormat) =
     (\<lparr>SQL = ''$1 $2 $1 $3'',
       parameters =
         [\<lparr>PName = ''a'', PIndex = 1\<rparr>, \<lparr>PName = ''b'', PIndex = 2\<rparr>,
          \<lparr>PName = ''c'', PIndex = 3\<rparr>],
       occurrences =
         [\<lparr>Name = ''a'', Index = 1, Start = 0, End = 2, Raw = '':a''\<rparr>,
          \<lparr>Name = ''b'', Index = 2, Start = 3, End = 5, Raw = '':b''\<rparr>,
          \<lparr>Name = ''a'', Index = 1, Start = 6, End = 8, Raw = '':a''\<rparr>,
          \<lparr>Name = ''c'', Index = 3, Start = 9, End = 11, Raw = '':c''\<rparr>]\<rparr>, None) \<and>
   ''a'' \<noteq> ''b'' \<and> ''a'' \<noteq> ''c'' \<and> ''b'' \<noteq> ''c''"
proof -
  define ps where "ps = \<lparr>SQL = ''$1 $2 $1 $3'',
       parameters =
         [\<lparr>PName = ''a'', PIndex = 1\<rparr>, \<lparr>PName = ''b'', PIndex = 2\<rparr>,
          \<lparr>PName = ''c'', PIndex = 3\<rparr>],
       occurrences =
         [\<lparr>Name = ''a'', Index = 1, Start = 0, End = 2, Raw = '':a''\<rparr>,
          \<lparr>Name = ''b'', Index = 2, Start = 3, End = 5, Raw = '':b''\<rparr>,
          \<lparr>Name = ''a'', Index = 1, Start = 6, End = 8, Raw = '':a''\<rparr>,
          \<lparr>Name = ''c'', Index = 3, Start = 9, End = 11, Raw = '':c''\<rparr>]\<rparr>"
  have p: "ParseSQL latin1_only '':a :b :a :c'' (Some postgresFormat) = (ps, None)"
    unfolding ps_def by (simp add: loop_simps def_simps eval_nat_numeral)
  have nms: "map Name (occurrences ps) = [''a'', ''b'', ''a'', ''c'']"
    by (simp add: ps_def)
  have d: "''a'' \<noteq> ''b''" "''a'' \<noteq> ''c''" "''b'' \<noteq> ''c''" by simp_all
  from first_occurrence_order [OF p nms d] p d show ?thesis
    by (simp add: ps_def)
qed


section \<open>Progress and termination of the scan\<close>

text \<open>
  C1. Every iteration of the main loop, whichever branch of the dispatch it takes,
  leaves the cursor strictly greater than it found it and does not change the text or
  its length; on a state whose \<open>n\<close> is the length of its text the cursor also stays
  within the text. Hence the loop ends after at most as many iterations as the text
  has bytes, for every text, and when it ends without error the cursor is at the end
  of the text.
\<close>

theorem scan_progress_and_termination:
  "(s_i s < s_n s \<longrightarrow>
      s_i s < s_i (fst (step U f s)) \<and> s_n (fst (step U f s)) = s_n s \<and>
      s_src (fst (step U f s)) = s_src s) \<and>
   (s_i s < s_n s \<and> s_n s = length (s_src s) \<longrightarrow> s_i (fst (step U f s)) \<le> s_n s) \<and>
   scan_fuel (length src) U f (newParseState src) = Some (scan U f (newParseState src)) \<and>
   (snd (scan U f (newParseState src)) = None \<longrightarrow>
      s_i (fst (scan U f (newParseState src))) = length src)"
proof -
  have p1: "s_i s < s_n s \<longrightarrow>
      s_i s < s_i (fst (step U f s)) \<and> s_n (fst (step U f s)) = s_n s \<and>
      s_src (fst (step U f s)) = s_src s"
    using step_advances [of s U f] by (simp add: advances_def)
  have p2: "s_i s < s_n s \<and> s_n s = length (s_src s) \<longrightarrow> s_i (fst (step U f s)) \<le> s_n s"
    using step_bound [of s U f] by simp
  have p3: "scan_fuel (length src) U f (newParseState src) = Some (scan U f (newParseState src))"
    by (rule scan_fuel_enough) (simp add: newParseState_def)
  have p4: "snd (scan U f (newParseState src)) = None \<longrightarrow>
      s_i (fst (scan U f (newParseState src))) = length src"
  proof
    assume e: "snd (scan U f (newParseState src)) = None"
    obtain sf where sc: "scan U f (newParseState src) = (sf, None)"
      using e by (cases "scan U f (newParseState src)") simp
    from scan_end [OF sc] have re: "reaches U f (newParseState src) sf"
      and fin: "\<not> s_i sf < s_n sf" by simp_all
    from reaches_inv [OF re scanInv_init] have "scanInv U f sf" and "s_src sf = src"
      by (simp_all add: newParseState_def)
    then have "s_i sf = length src" using fin by (simp add: scanInv_def)
    with sc show "s_i (fst (scan U f (newParseState src))) = length src" by simp
  qed
  from p1 p2 p3 p4 show ?thesis by blast
qed

theorem scan_progress_and_termination_witness:
  "s_i (newParseState ''q'') < s_n (newParseState ''q'') \<and>
   s_n (newParseState ''q'') = length (s_src (newParseState ''q'')) \<and>
   s_i (fst (step latin1_only mysqlFormat (newParseState ''q''))) = 1 \<and>
   snd (scan latin1_only mysqlFormat (newParseState ''q'')) = None \<and>
   scan_fuel (length ''q'') latin1_only mysqlFormat (newParseState ''q'') =
     Some (newParseState ''q'' \<lparr>s_i := 1\<rparr>, None)"
proof -
  have sc: "scan latin1_only mysqlFormat (newParseState ''q'') =
      (newParseState ''q'' \<lparr>s_i := 1\<rparr>, None)"
    by (simp add: loop_simps def_simps)
  have st: "s_i (fst (step latin1_only mysqlFormat (newParseState ''q''))) = 1"
    by (simp add: loop_simps def_simps)
  from scan_progress_and_termination [of "newParseState ''q''" latin1_only mysqlFormat "''q''"]
    sc st
  show ?thesis by (simp add: newParseState_def)
qed

section \<open>Names the recognizer emits\<close>

text \<open>
  C8, as the code has it. The recognizer scans the name bytewise over ASCII: for every
  text and every token of a successful parse, the token starts at a \<open>:\<close>, its name is
  the maximal run of bytes among \<open>A-Z a-z 0-9 _ . [ ]\<close> that follows the \<open>:\<close> (every byte
  of the name is such an ASCII byte, and the byte after the name, if any, is not), and
  the name passed \<open>isValidName\<close>. A byte of a non-ASCII letter therefore ends the name.
\<close>

theorem token_name_is_ascii_run:
  assumes p: "ParseSQL U src (Some f) = (ps, None)" and t: "t \<in> set (occurrences ps)"
  shows "src ! Start t = CHR '':'' \<and> Name t = slice src (Start t + 1) (End t) \<and>
         (\<forall>c \<in> set (Name t). isValidIdentifierChar c \<and> (of_char c :: nat) < 128) \<and>
         (End t < length src \<longrightarrow> \<not> isValidIdentifierChar (src ! End t)) \<and>
         isValidName U (Name t)"
proof -
  from ParseSQL_ok [OF p] obtain sf where inv: "scanInv U f sf" and sr: "s_src sf = src"
    and occ: "occurrences ps = s_tokens sf" by blast
  from inv t occ sr have "tok_ok U src t" by (auto simp: scanInv_def)
  then show ?thesis
    by (auto simp: tok_ok_def dest: isValidIdentifierChar_ascii)
qed

theorem token_name_is_ascii_run_witness:
  "ParseSQL latin1_only [CHR '':'', CHR ''a'', CHR 0xC3, CHR 0xB1, CHR ''o''] (Some mysqlFormat) =
     (\<lparr>SQL = [CHR ''?'', CHR 0xC3, CHR 0xB1, CHR ''o''],
       parameters = [\<lparr>PName = ''a'', PIndex = 1\<rparr>],
       occurrences = [\<lparr>Name = ''a'', Index = 1, Start = 0, End = 2, Raw = '':a''\<rparr>]\<rparr>, None) \<and>
   \<not> isValidIdentifierChar (CHR 0xC3) \<and> isValidName latin1_only ''a''"
proof -
  define ps where "ps = \<lparr>SQL = [CHR ''?'', CHR 0xC3, CHR 0xB1, CHR ''o''],
       parameters = [\<lparr>PName = ''a'', PIndex = 1\<rparr>],
       occurrences = [\<lparr>Name = ''a'', Index = 1, Start = 0, End = 2, Raw = '':a''\<rparr>]\<rparr>"
  define t where "t = \<lparr>Name = ''a'', Index = 1, Start = 0, End = 2, Raw = '':a''\<rparr>"
  have p: "ParseSQL latin1_only [CHR '':'', CHR ''a'', CHR 0xC3, CHR 0xB1, CHR ''o'']
             (Some mysqlFormat) = (ps, None)"
    unfolding ps_def by (simp add: loop_simps def_simps)
  have t: "t \<in> set (occurrences ps)" by (simp add: ps_def t_def)
  from token_name_is_ascii_run [OF p t] p show ?thesis
    by (simp add: ps_def t_def slice_def)
qed

text \<open>
  C8 as stated fails: \<open>a\<close> followed by the two UTF-8 bytes of \<open>U+00F1\<close> and \<open>o\<close> is a name
  that \<open>isValidName\<close> accepts, yet for that name after a \<open>:\<close> the only token the
  recognizer emits has the name \<open>a\<close>.
\<close>

theorem unicode_name_cut_short:
  "isValidName latin1_only [CHR ''a'', CHR 0xC3, CHR 0xB1, CHR ''o''] \<and>
   map Name (occurrences (fst (ParseSQL latin1_only
       [CHR '':'', CHR ''a'', CHR 0xC3, CHR 0xB1, CHR ''o''] (Some mysqlFormat)))) = [''a''] \<and>
   ''a'' \<noteq> [CHR ''a'', CHR 0xC3, CHR 0xB1, CHR ''o'']"
  by (simp add: loop_simps def_simps)


section \<open>Invalid placeholder names\<close>

text \<open>
  C4. Whenever the scan of a text arrives at a placeholder (a \<open>:\<close> followed by an
  identifier start) whose raw name, the maximal run of name bytes, is not a valid name,
  \<open>ParseSQL\<close> returns the error \<open>ErrInvalidPlaceholderName\<close> with that raw name and the
  offset of the \<open>:\<close>, together with the zero \<open>ParsedSQL\<close>: no text, no parameters, no
  occurrences. The text \<open>:items.0.id\<close> fails so; the text \<open>:items[0].id\<close> succeeds with
  the one parameter \<open>items[0].id\<close>.
\<close>

theorem invalid_name_fails_whole_parse:
  "(reaches U f (newParseState src) s \<and> atPlaceholder s \<and> \<not> isValidName U (rawNameAt s) \<longrightarrow>
      ParseSQL U src (Some f) =
        (zeroParsedSQL, Some (ErrInvalidPlaceholderName (rawNameAt s) (s_i s)))) \<and>
   zeroParsedSQL = \<lparr>SQL = [], parameters = [], occurrences = []\<rparr> \<and>
   ParseSQL U '':items.0.id'' (Some f) =
     (zeroParsedSQL, Some (ErrInvalidPlaceholderName ''items.0.id'' 0)) \<and>
   ParseSQL U '':items[0].id'' (Some f) =
     (\<lparr>SQL = f 1, parameters = [\<lparr>PName = ''items[0].id'', PIndex = 1\<rparr>],
       occurrences =
         [\<lparr>Name = ''items[0].id'', Index = 1, Start = 0, End = 12,
           Raw = '':items[0].id''\<rparr>]\<rparr>, None)"
proof -
  have g: "reaches U f (newParseState src) s \<and> atPlaceholder s \<and>
           \<not> isValidName U (rawNameAt s) \<longrightarrow>
      ParseSQL U src (Some f) =
        (zeroParsedSQL, Some (ErrInvalidPlaceholderName (rawNameAt s) (s_i s)))"
    using ParseSQL_invalid [of U f src s] by blast
  have z: "zeroParsedSQL = \<lparr>SQL = [], parameters = [], occurrences = []\<rparr>"
    by (simp add: zeroParsedSQL_def)
  have e1: "ParseSQL U '':items.0.id'' (Some f) =
     (zeroParsedSQL, Some (ErrInvalidPlaceholderName ''items.0.id'' 0))"
    by (simp add: loop_simps def_simps)
  have e2: "ParseSQL U '':items[0].id'' (Some f) =
     (\<lparr>SQL = f 1, parameters = [\<lparr>PName = ''items[0].id'', PIndex = 1\<rparr>],
       occurrences =
         [\<lparr>Name = ''items[0].id'', Index = 1, Start = 0, End = 12,
           Raw = '':items[0].id''\<rparr>]\<rparr>, None)"
    by (simp add: loop_simps def_simps)
  from g z e1 e2 show ?thesis by blast
qed

theorem invalid_name_fails_whole_parse_witness:
  "reaches latin1_only mysqlFormat (newParseState ''a :b.1'') (newParseState ''a :b.1'' \<lparr>s_i := 2\<rparr>) \<and>
   atPlaceholder (newParseState ''a :b.1'' \<lparr>s_i := 2\<rparr>) \<and>
   rawNameAt (newParseState ''a :b.1'' \<lparr>s_i := 2\<rparr>) = ''b.1'' \<and>
   \<not> isValidName latin1_only ''b.1'' \<and>
   ParseSQL latin1_only ''a :b.1'' (Some mysqlFormat) =
     (\<lparr>SQL = [], parameters = [], occurrences = []\<rparr>, Some (ErrInvalidPlaceholderName ''b.1'' 2))"
proof -
  let ?s0 = "newParseState ''a :b.1''"
  have r0: "reaches latin1_only mysqlFormat ?s0 ?s0" by (rule reaches_refl)
  have st0: "step latin1_only mysqlFormat ?s0 = (?s0 \<lparr>s_i := 1\<rparr>, None)"
    by (simp add: loop_simps def_simps)
  have r1: "reaches latin1_only mysqlFormat ?s0 (?s0 \<lparr>s_i := 1\<rparr>)"
    by (rule reaches_step [OF r0 _ st0]) (simp add: newParseState_def)
  have st1: "step latin1_only mysqlFormat (?s0 \<lparr>s_i := 1\<rparr>) = (?s0 \<lparr>s_i := 2\<rparr>, None)"
    by (simp add: loop_simps def_simps)
  have r2: "reaches latin1_only mysqlFormat ?s0 (?s0 \<lparr>s_i := 2\<rparr>)"
    by (rule reaches_step [OF r1 _ st1]) (simp add: newParseState_def)
  have ap: "atPlaceholder (?s0 \<lparr>s_i := 2\<rparr>)"
    by (simp add: def_simps)
  have rn: "rawNameAt (?s0 \<lparr>s_i := 2\<rparr>) = ''b.1''"
    by (simp add: loop_simps def_simps)
  have nv: "\<not> isValidName latin1_only ''b.1''"
    by (simp add: loop_simps def_simps)
  from invalid_name_fails_whole_parse
         [of latin1_only mysqlFormat "''a :b.1''" "?s0 \<lparr>s_i := 2\<rparr>"] r2 ap rn nv
  show ?thesis by (simp add: zeroParsedSQL_def)
qed

text \<open>
  C10. The recognizer validates the maximal run of name bytes and nothing shorter:
  whenever the scan arrives at a placeholder whose raw name ends in a dot, or ends in a
  closing bracket without containing an opening one, \<open>ParseSQL\<close> fails with
  \<open>ErrInvalidPlaceholderName\<close> for that raw name at the offset of the \<open>:\<close>. So
  \<open>SELECT :id.\<close> and \<open>:a]\<close> fail, although the shorter names \<open>id\<close> and \<open>a\<close> are valid.
\<close>

theorem trailing_punctuation_fails:
  "(reaches U f (newParseState src) s \<and> atPlaceholder s \<and>
    (last (rawNameAt s) = CHR ''.'' \<or>
     (last (rawNameAt s) = CHR '']'' \<and> CHR ''['' \<notin> set (rawNameAt s))) \<longrightarrow>
      ParseSQL U src (Some f) =
        (zeroParsedSQL, Some (ErrInvalidPlaceholderName (rawNameAt s) (s_i s)))) \<and>
   ParseSQL U ''SELECT :id.'' (Some f) =
     (zeroParsedSQL, Some (ErrInvalidPlaceholderName ''id.'' 7)) \<and>
   ParseSQL U '':a]'' (Some f) = (zeroParsedSQL, Some (ErrInvalidPlaceholderName ''a]'' 0)) \<and>
   isValidName U ''id'' \<and> isValidName U ''a''"
proof -
  have g: "reaches U f (newParseState src) s \<and> atPlaceholder s \<and>
    (last (rawNameAt s) = CHR ''.'' \<or>
     (last (rawNameAt s) = CHR '']'' \<and> CHR ''['' \<notin> set (rawNameAt s))) \<longrightarrow>
      ParseSQL U src (Some f) =
        (zeroParsedSQL, Some (ErrInvalidPlaceholderName (rawNameAt s) (s_i s)))"
  proof (intro impI, elim conjE)
    assume re: "reaches U f (newParseState src) s" and p: "atPlaceholder s"
      and stp: "last (rawNameAt s) = CHR ''.'' \<or>
                (last (rawNameAt s) = CHR '']'' \<and> CHR ''['' \<notin> set (rawNameAt s))"
    from reaches_inv [OF re scanInv_init] have "s_n s = length (s_src s)"
      by (simp add: scanInv_def)
    from rawNameAt_chars [OF this p] have ch: "\<forall>c \<in> set (rawNameAt s). isValidIdentifierChar c"
      and ne: "rawNameAt s \<noteq> []" by simp_all
    from isValidName_trailing [OF ch ne stp] have "\<not> isValidName U (rawNameAt s)" .
    from ParseSQL_invalid [OF re p this]
    show "ParseSQL U src (Some f) =
        (zeroParsedSQL, Some (ErrInvalidPlaceholderName (rawNameAt s) (s_i s)))" .
  qed
  have e1: "ParseSQL U ''SELECT :id.'' (Some f) =
     (zeroParsedSQL, Some (ErrInvalidPlaceholderName ''id.'' 7))"
    by (simp add: loop_simps def_simps)
  have e2: "ParseSQL U '':a]'' (Some f) = (zeroParsedSQL, Some (ErrInvalidPlaceholderName ''a]'' 0))"
    by (simp add: loop_simps def_simps)
  have e3: "isValidName U ''id''" "isValidName U ''a''"
    by (simp_all add: loop_simps def_simps)
  from g e1 e2 e3 show ?thesis by blast
qed

theorem trailing_punctuation_fails_witness:
  "reaches latin1_only mysqlFormat (newParseState ''1 :a]'') (newParseState ''1 :a]'' \<lparr>s_i := 2\<rparr>) \<and>
   atPlaceholder (newParseState ''1 :a]'' \<lparr>s_i := 2\<rparr>) \<and>
   rawNameAt (newParseState ''1 :a]'' \<lparr>s_i := 2\<rparr>) = ''a]'' \<and>
   last ''a]'' = CHR '']'' \<and> CHR ''['' \<notin> set ''a]'' \<and>
   ParseSQL latin1_only ''1 :a]'' (Some mysqlFormat) =
     (\<lparr>SQL = [], parameters = [], occurrences = []\<rparr>, Some (ErrInvalidPlaceholderName ''a]'' 2))"
proof -
  let ?s0 = "newParseState ''1 :a]''"
  have r0: "reaches latin1_only mysqlFormat ?s0 ?s0" by (rule reaches_refl)
  have st0: "step latin1_only mysqlFormat ?s0 = (?s0 \<lparr>s_i := 1\<rparr>, None)"
    by (simp add: loop_simps def_simps)
  have r1: "reaches latin1_only mysqlFormat ?s0 (?s0 \<lparr>s_i := 1\<rparr>)"
    by (rule reaches_step [OF r0 _ st0]) (simp add: newParseState_def)
  have st1: "step latin1_only mysqlFormat (?s0 \<lparr>s_i := 1\<rparr>) = (?s0 \<lparr>s_i := 2\<rparr>, None)"
    by (simp add: loop_simps def_simps)
  have r2: "reaches latin1_only mysqlFormat ?s0 (?s0 \<lparr>s_i := 2\<rparr>)"
    by (rule reaches_step [OF r1 _ st1]) (simp add: newParseState_def)
  have ap: "atPlaceholder (?s0 \<lparr>s_i := 2\<rparr>)"
    by (simp add: def_simps)
  have rn: "rawNameAt (?s0 \<lparr>s_i := 2\<rparr>) = ''a]''"
    by (simp add: loop_simps def_simps)
  from trailing_punctuation_fails
         [of latin1_only mysqlFormat "''1 :a]''" "?s0 \<lparr>s_i := 2\<rparr>"] r2 ap rn
  show ?thesis by (simp add: zeroParsedSQL_def)
qed


end
